theory Spec2Isabelle
  imports Main
begin

section \<open>Python conditions\<close>

text \<open>
  Every exception the modelled code can raise or let through is a value of \<open>pyerr\<close>;
  \<open>UserError\<close> stands for any other exception a hook, a wrapped callable or a value
  type raises.  A computation that may raise returns \<open>pyerr + 'a\<close> (\<open>Inl\<close> the exception);
  one that mutates an object before it raises returns the object together with
  \<open>pyerr option\<close>, so that what was already mutated stays visible.
\<close>

datatype pyerr =
    AttributeError | KeyError | TypeError | ValueError | IndexError | RecursionError
  | OverflowError | UserError string

section \<open>sisl/mixing/base.py\<close>

subsection \<open>Metric\<close>

text \<open>
  The operands of \<open>Metric.inner\<close> are values of an arbitrary type \<open>'v\<close>; what
  \<open>a.dot(x)\<close>, \<open>a * x\<close> and \<open>y.sum()\<close> do belongs to that type, not to this module, so
  the three operations are a parameter.  Each of them may raise.
\<close>

record ('v, 's) value_ops =
  dot :: "'v \<Rightarrow> 'v \<Rightarrow> pyerr + 's"
  mul :: "'v \<Rightarrow> 'v \<Rightarrow> pyerr + 'v"
  sum_all :: "'v \<Rightarrow> pyerr + 's"

text \<open>The only attribute of a \<open>Metric\<close> is \<open>_metric\<close>, a callable on values.\<close>

record 'v Metric =
  metric :: "'v \<Rightarrow> pyerr + 'v"

text \<open>\<open>_dummy_dot.__call__\<close>: returns its argument.\<close>

definition dummy_dot :: "'v \<Rightarrow> pyerr + 'v" where
  "dummy_dot a = Inr a"

text \<open>\<open>Metric.__init__(self, metric=None)\<close>.\<close>

definition Metric_init :: "('v \<Rightarrow> pyerr + 'v) option \<Rightarrow> 'v Metric" where
  "Metric_init m = (case m of None \<Rightarrow> \<lparr>metric = dummy_dot\<rparr> | Some f \<Rightarrow> \<lparr>metric = f\<rparr>)"

text \<open>
  \<open>Metric.inner\<close>: the \<open>try\<close> block evaluates \<open>self._metric(b)\<close> and then \<open>a.dot\<close> of it;
  the bare \<open>except\<close> catches whatever either raised and evaluates
  \<open>(a * self._metric(b)).sum()\<close>, whose own exceptions propagate.
\<close>

definition Metric_inner ::
  "('v, 's) value_ops \<Rightarrow> 'v Metric \<Rightarrow> 'v \<Rightarrow> 'v \<Rightarrow> pyerr + 's" where
  "Metric_inner V self a b =
     (case (case metric self b of Inl e \<Rightarrow> Inl e | Inr mb \<Rightarrow> dot V a mb) of
        Inr r \<Rightarrow> Inr r
      | Inl _ \<Rightarrow>
          (case metric self b of
             Inl e \<Rightarrow> Inl e
           | Inr mb \<Rightarrow> (case mul V a mb of Inl e \<Rightarrow> Inl e | Inr p \<Rightarrow> sum_all V p)))"

text \<open>
  The specification's right-hand side \<open>sum(a * M(b))\<close>, written as the specification
  words it (not taken from the code): apply \<open>M\<close>, multiply elementwise, sum.
\<close>

definition spec_sum_of_product ::
  "('v, 's) value_ops \<Rightarrow> ('v \<Rightarrow> pyerr + 'v) \<Rightarrow> 'v \<Rightarrow> 'v \<Rightarrow> pyerr + 's" where
  "spec_sum_of_product V M a b =
     (case M b of
        Inl e \<Rightarrow> Inl e
      | Inr mb \<Rightarrow> (case mul V a mb of Inl e \<Rightarrow> Inl e | Inr p \<Rightarrow> sum_all V p))"

text \<open>
  An example value type for evaluation: integer vectors as lists.  The native
  reduction and the elementwise product both refuse operands of different lengths.
\<close>

definition int_vectors :: "(int list, int) value_ops" where
  "int_vectors =
     \<lparr>dot = (\<lambda>a b. if length a = length b then Inr (sum_list (map2 (*) a b)) else Inl ValueError),
      mul = (\<lambda>a b. if length a = length b then Inr (map2 (*) a b) else Inl ValueError),
      sum_all = (\<lambda>a. Inr (sum_list a))\<rparr>"

text \<open>
  The same, for a value type without a \<open>dot\<close> method: the attribute lookup raises.
\<close>

definition int_vectors_no_dot :: "(int list, int) value_ops" where
  "int_vectors_no_dot = int_vectors\<lparr>dot := (\<lambda>a b. Inl AttributeError)\<rparr>"

text \<open>
  A second example value type, in the manner of numerical arrays of up to two
  dimensions: the native reduction of two vectors is their scalar product, that of two
  matrices is the matrix product; the product \<open>*\<close> is elementwise on operands of one
  shape; \<open>sum\<close> adds all elements up.
\<close>

datatype ndarray = Scalar int | Vec "int list" | Mat "int list list"

definition ndarrays :: "(ndarray, ndarray) value_ops" where
  "ndarrays =
     \<lparr>dot = (\<lambda>a b.
        case (a, b) of
          (Vec x, Vec y) \<Rightarrow>
            if length x = length y then Inr (Scalar (sum_list (map2 (*) x y)))
            else Inl ValueError
        | (Mat A, Mat B) \<Rightarrow>
            if list_all (\<lambda>row. length row = length B) A
            then Inr (Mat (map (\<lambda>row. map (\<lambda>col. sum_list (map2 (*) row col)) (transpose B)) A))
            else Inl ValueError
        | _ \<Rightarrow> Inl TypeError),
      mul = (\<lambda>a b.
        case (a, b) of
          (Vec x, Vec y) \<Rightarrow>
            if length x = length y then Inr (Vec (map2 (*) x y)) else Inl ValueError
        | (Mat A, Mat B) \<Rightarrow>
            if map length A = map length B then Inr (Mat (map2 (map2 (*)) A B))
            else Inl ValueError
        | _ \<Rightarrow> Inl TypeError),
      sum_all = (\<lambda>a.
        case a of
          Scalar i \<Rightarrow> Inr (Scalar i)
        | Vec x \<Rightarrow> Inr (Scalar (sum_list x))
        | Mat A \<Rightarrow> Inr (Scalar (sum_list (map sum_list A))))\<rparr>"

subsection \<open>History\<close>

text \<open>
  \<open>collections.deque(maxlen=m)\<close>: the elements, oldest first, and the bound (\<open>None\<close>:
  unbounded).
\<close>

record 'a deque =
  maxlen :: "nat option"
  elems :: "'a list"

text \<open>
  \<open>deque.append(x)\<close>: adds \<open>x\<close> on the right; a bounded deque that now holds more than
  \<open>maxlen\<close> elements drops its leftmost one.
\<close>

definition deque_append :: "'a \<Rightarrow> 'a deque \<Rightarrow> 'a deque" where
  "deque_append x d =
     (let xs = elems d @ [x] in
      case maxlen d of
        None \<Rightarrow> d\<lparr>elems := xs\<rparr>
      | Some m \<Rightarrow> if m < length xs then d\<lparr>elems := tl xs\<rparr> else d\<lparr>elems := xs\<rparr>)"

text \<open>\<open>deque.clear()\<close>.\<close>

definition deque_clear :: "'a deque \<Rightarrow> 'a deque" where
  "deque_clear d = d\<lparr>elems := []\<rparr>"

text \<open>
  Python's index into a sequence of length \<open>n\<close>: a negative index counts from the end,
  and an index outside \<open>-n \<le> i < n\<close> raises \<open>IndexError\<close>.
\<close>

definition py_index :: "nat \<Rightarrow> int \<Rightarrow> pyerr + nat" where
  "py_index n i =
     (let j = (if i < 0 then i + int n else i) in
      if 0 \<le> j \<and> j < int n then Inr (nat j) else Inl IndexError)"

text \<open>\<open>del d[i]\<close> on a deque.\<close>

definition deque_delitem :: "int \<Rightarrow> 'a deque \<Rightarrow> pyerr + 'a deque" where
  "deque_delitem i d =
     (case py_index (length (elems d)) i of
        Inl e \<Rightarrow> Inl e
      | Inr j \<Rightarrow> Inr (d\<lparr>elems := take j (elems d) @ drop (Suc j) (elems d)\<rparr>))"

text \<open>A \<open>History\<close> is its attribute \<open>_hist\<close>: a list of deques, one per variable.\<close>

type_synonym 'a History = "'a deque list"

text \<open>
  The largest bound a deque takes, \<open>sys.maxsize\<close>; on a 64-bit build it is
  \<open>2 ^ 63 - 1\<close>.
\<close>

definition maxsize :: int where
  "maxsize = 2 ^ 63 - 1"

text \<open>
  \<open>History.__init__(self, history=2, variables=2)\<close>: \<open>range(variables)\<close> is empty for
  \<open>variables \<le> 0\<close>, and no deque is made.  Otherwise \<open>deque(maxlen=history)\<close> raises
  \<open>OverflowError\<close> for a bound outside \<open>-maxsize - 1 \<le> m \<le> maxsize\<close> and \<open>ValueError\<close>
  for any other negative bound.
\<close>

definition History_init :: "int option \<Rightarrow> int \<Rightarrow> pyerr + 'a History" where
  "History_init history variables =
     (if variables \<le> 0 then Inr []
      else case history of
        None \<Rightarrow> Inr (replicate (nat variables) \<lparr>maxlen = None, elems = []\<rparr>)
      | Some m \<Rightarrow>
          if m < - maxsize - 1 \<or> maxsize < m then Inl OverflowError
          else if m < 0 then Inl ValueError
          else Inr (replicate (nat variables) \<lparr>maxlen = Some (nat m), elems = []\<rparr>))"

text \<open>
  The property \<open>variables\<close>: \<open>len(self._hist)\<close>.  (The \<open>lru_cache\<close> around it is keyed by
  the object, and no method changes the length of \<open>_hist\<close>.)
\<close>

definition History_variables :: "'a History \<Rightarrow> nat" where
  "History_variables self = length self"

text \<open>
  The slots a call selects: \<open>range(self.variables)\<close> when \<open>variables\<close> is \<open>None\<close>, else
  \<open>list(variables)\<close>.
\<close>

definition selected :: "'a History \<Rightarrow> int list option \<Rightarrow> int list" where
  "selected self variables =
     (case variables of
        None \<Rightarrow> map int [0..<History_variables self]
      | Some vs \<Rightarrow> vs)"

text \<open>
  The loop of \<open>append\<close>, \<open>for i, arg in zip(variables, args): self._hist[i].append(arg)\<close>.
  \<open>self._hist[i]\<close> raises \<open>IndexError\<close> for an index that is no slot; the slots already
  appended to stay as they are.
\<close>

fun append_loop :: "(int \<times> 'a) list \<Rightarrow> 'a History \<Rightarrow> 'a History \<times> pyerr option" where
  "append_loop [] self = (self, None)"
| "append_loop ((i, arg) # rest) self =
     (case py_index (length self) i of
        Inl e \<Rightarrow> (self, Some e)
      | Inr j \<Rightarrow> append_loop rest (self[j := deque_append arg (self ! j)]))"

text \<open>\<open>History.append(self, *args, variables=None)\<close>.\<close>

definition History_append ::
  "'a list \<Rightarrow> int list option \<Rightarrow> 'a History \<Rightarrow> 'a History \<times> pyerr option" where
  "History_append args variables self =
     (let vs = selected self variables in
      if length args \<noteq> length vs then (self, Some ValueError)
      else append_loop (zip vs args) self)"

text \<open>
  The branch of \<open>clear\<close> without \<open>index\<close>: \<open>for v in variables: self._hist[v].clear()\<close>.
\<close>

fun clear_all_loop :: "int list \<Rightarrow> 'a History \<Rightarrow> 'a History \<times> pyerr option" where
  "clear_all_loop [] self = (self, None)"
| "clear_all_loop (v # rest) self =
     (case py_index (length self) v of
        Inl e \<Rightarrow> (self, Some e)
      | Inr j \<Rightarrow> clear_all_loop rest (self[j := deque_clear (self ! j)]))"

text \<open>
  The inner loop of the branch with \<open>index\<close>, for one variable \<open>v\<close>:
  \<open>for i in index: del self._hist[v][i]\<close>.  Each round evaluates \<open>self._hist[v]\<close>
  and deletes from that deque; with no index there is no round, and \<open>v\<close> is not
  looked at.  A failing round leaves the earlier deletions done.
\<close>

fun delete_loop :: "int \<Rightarrow> int list \<Rightarrow> 'a History \<Rightarrow> 'a History \<times> pyerr option" where
  "delete_loop v [] self = (self, None)"
| "delete_loop v (i # rest) self =
     (case py_index (length self) v of
        Inl e \<Rightarrow> (self, Some e)
      | Inr j \<Rightarrow>
          (case deque_delitem i (self ! j) of
             Inl e \<Rightarrow> (self, Some e)
           | Inr d' \<Rightarrow> delete_loop v rest (self[j := d'])))"

text \<open>The outer loop, \<open>for v in variables\<close>, over the sorted \<open>index\<close>.\<close>

fun clear_index_loop :: "int list \<Rightarrow> int list \<Rightarrow> 'a History \<Rightarrow> 'a History \<times> pyerr option" where
  "clear_index_loop [] index self = (self, None)"
| "clear_index_loop (v # rest) index self =
     (case delete_loop v index self of
        (self', Some e) \<Rightarrow> (self', Some e)
      | (self', None) \<Rightarrow> clear_index_loop rest index self')"

text \<open>
  \<open>History.clear(self, index=None, variables=None)\<close>.  \<open>index.sort(reverse=True)\<close> puts
  the indices in descending order of their values as integers.
\<close>

definition History_clear ::
  "int list option \<Rightarrow> int list option \<Rightarrow> 'a History \<Rightarrow> 'a History \<times> pyerr option" where
  "History_clear index variables self =
     (let vs = selected self variables in
      case index of
        None \<Rightarrow> clear_all_loop vs self
      | Some ix \<Rightarrow> clear_index_loop vs (rev (sort ix)) self)"

text \<open>The elements of \<open>xs\<close> that stand at none of the positions \<open>ix\<close>, in their order.\<close>

definition without_positions :: "'a list \<Rightarrow> int list \<Rightarrow> 'a list" where
  "without_positions xs ix = nths xs {j. int j \<notin> set ix}"

text \<open>
  The values slot \<open>j\<close> of a history with \<open>n\<close> slots receives from the pairs
  \<open>zip(variables, args)\<close>, in the order of the call.
\<close>

definition values_for :: "nat \<Rightarrow> nat \<Rightarrow> (int \<times> 'a) list \<Rightarrow> 'a list" where
  "values_for n j zs = map snd (filter (\<lambda>p. py_index n (fst p) = Inr j) zs)"

text \<open>
  The transform the specification calls \<open>M\<close>: the one given, the identity when none was.
\<close>

definition spec_transform :: "('v \<Rightarrow> pyerr + 'v) option \<Rightarrow> 'v \<Rightarrow> pyerr + 'v" where
  "spec_transform m = (case m of None \<Rightarrow> Inr | Some f \<Rightarrow> f)"

text \<open>A history for evaluation: two slots of capacity 2, the first one full.\<close>

definition h0 :: "int History" where
  "h0 = [\<lparr>maxlen = Some 2, elems = [1, 2]\<rparr>, \<lparr>maxlen = Some 2, elems = [5]\<rparr>]"

section \<open>sisl/\_plugs.py\<close>

subsection \<open>Values, callables and their effects\<close>

text \<open>
  Python values as far as the module looks at them: \<open>None\<close>, booleans, integers and
  references to mutable objects.  \<open>truthy\<close> is what \<open>not inplace\<close> tests; an object that
  defines neither \<open>__bool__\<close> nor \<open>__len__\<close> is true.
\<close>

datatype pyval = VNone | VBool bool | VInt int | VRef nat

fun truthy :: "pyval \<Rightarrow> bool" where
  "truthy VNone = False"
| "truthy (VBool b) = b"
| "truthy (VInt i) = (i \<noteq> 0)"
| "truthy (VRef r) = True"

type_synonym name = string
type_synonym kwargs = "(name \<times> pyval) list"

text \<open>
  Mutable objects live in a heap, addressed by the number in \<open>VRef\<close>; \<open>'o\<close> is whatever
  state an object has.  Two values alias when they are the same reference.
\<close>

type_synonym 'o heap = "nat \<Rightarrow> 'o"

text \<open>
  Hooks and the wrapped attribute are callables the module only calls.  A callable is
  known by an identifier; the environment says what calling it does to the heap and
  what it returns or raises, what \<open>obj.copy()\<close> does, and what
  \<open>inspect.getfullargspec\<close> reports as \<open>(args, kwonlyargs)\<close> (it raises \<open>TypeError\<close> for
  a callable it cannot inspect).
\<close>

type_synonym fid = string

record 'o env =
  call_of :: "fid \<Rightarrow> 'o heap \<Rightarrow> pyval list \<Rightarrow> kwargs \<Rightarrow> 'o heap \<times> (pyerr + pyval)"
  copy_of :: "'o heap \<Rightarrow> pyval \<Rightarrow> 'o heap \<times> (pyerr + pyval)"
  getfullargspec :: "fid \<Rightarrow> pyerr + (name list \<times> name list)"

text \<open>
  To state in which order and with which arguments the callables run, the model keeps
  a record of the calls made: every \<open>obj.copy()\<close> and every call of a hook or of the
  wrapped attribute appends one event.  The callables themselves only see the heap.
\<close>

datatype event = Copied pyval | Called fid "pyval list" kwargs

record 'o state =
  heap :: "'o heap"
  calls :: "event list"

definition call_logged ::
  "'o env \<Rightarrow> fid \<Rightarrow> 'o state \<Rightarrow> pyval list \<Rightarrow> kwargs \<Rightarrow> 'o state \<times> (pyerr + pyval)" where
  "call_logged E f s pos kw =
     (case call_of E f (heap s) pos kw of
        (h, r) \<Rightarrow> (\<lparr>heap = h, calls = calls s @ [Called f pos kw]\<rparr>, r))"

definition copy_logged :: "'o env \<Rightarrow> 'o state \<Rightarrow> pyval \<Rightarrow> 'o state \<times> (pyerr + pyval)" where
  "copy_logged E s obj =
     (case copy_of E (heap s) obj of
        (h, r) \<Rightarrow> (\<lparr>heap = h, calls = calls s @ [Copied obj]\<rparr>, r))"

subsection \<open>combi\_hook\<close>

text \<open>
  Lines 77 to 84: the local \<open>inplace\<close> and the keyword arguments as they are when the
  copy is decided.  \<open>inplace\<close> is read from \<open>kwargs\<close> when the caller gave it.  Otherwise
  it stays \<open>False\<close>, and \<open>kwargs["inplace"] = True\<close> is stored when the wrapped attribute
  declares the parameter.
\<close>

definition inplace_flag :: "'o env \<Rightarrow> fid \<Rightarrow> kwargs \<Rightarrow> pyerr + (bool \<times> kwargs)" where
  "inplace_flag E attr kwargs =
     (case map_of kwargs ''inplace'' of
        Some v \<Rightarrow> Inr (truthy v, kwargs)
      | None \<Rightarrow>
          (case getfullargspec E attr of
             Inl e \<Rightarrow> Inl e
           | Inr (spec_args, spec_kwonlyargs) \<Rightarrow>
               if ''inplace'' \<in> set spec_args \<or> ''inplace'' \<in> set spec_kwonlyargs
               then Inr (False, kwargs @ [(''inplace'', VBool True)])
               else Inr (False, kwargs)))"

text \<open>
  \<open>for f in funcs: obj = f(obj, *args, **kwargs)\<close>; an exception ends the loop and
  propagates.
\<close>

fun run_hooks ::
  "'o env \<Rightarrow> fid list \<Rightarrow> pyval list \<Rightarrow> kwargs \<Rightarrow> 'o state \<Rightarrow> pyval \<Rightarrow> 'o state \<times> (pyerr + pyval)"
  where
  "run_hooks E [] args kwargs s obj = (s, Inr obj)"
| "run_hooks E (f # fs) args kwargs s obj =
     (case call_logged E f s (obj # args) kwargs of
        (s', Inl e) \<Rightarrow> (s', Inl e)
      | (s', Inr obj') \<Rightarrow> run_hooks E fs args kwargs s' obj')"

text \<open>
  \<open>combi_hook(obj, *args, **kwargs)\<close>, the closure over \<open>attr\<close>, \<open>pre_funcs\<close> and
  \<open>post_funcs\<close> that \<open>__getattribute__\<close> returns.  \<open>obj\<close> is the receiver of the hooked
  call, and the working value from then on.  \<open>attr\<close> is the attribute as
  \<open>super().__getattribute__\<close> found it, called as \<open>attr(obj, *args, **kwargs)\<close>; what
  that call does with \<open>obj\<close> is the callable's own (for a method found on the host
  object, \<open>attr\<close> is already bound to the host).
\<close>

definition combi_hook ::
  "'o env \<Rightarrow> fid \<Rightarrow> fid list \<Rightarrow> fid list \<Rightarrow>
   'o state \<Rightarrow> pyval \<Rightarrow> pyval list \<Rightarrow> kwargs \<Rightarrow> 'o state \<times> (pyerr + pyval)" where
  "combi_hook E attr pre_funcs post_funcs s obj args kwargs =
     (case inplace_flag E attr kwargs of
        Inl e \<Rightarrow> (s, Inl e)
      | Inr (inplace, kwargs') \<Rightarrow>
          (case (if \<not> inplace then copy_logged E s obj else (s, Inr obj)) of
             (s1, Inl e) \<Rightarrow> (s1, Inl e)
           | (s1, Inr obj1) \<Rightarrow>
               (case run_hooks E pre_funcs args kwargs' s1 obj1 of
                  (s2, Inl e) \<Rightarrow> (s2, Inl e)
                | (s2, Inr obj2) \<Rightarrow>
                    (case call_logged E attr s2 (obj2 # args) kwargs' of
                       (s3, Inl e) \<Rightarrow> (s3, Inl e)
                     | (s3, Inr obj3) \<Rightarrow>
                         run_hooks E (rev post_funcs) args kwargs' s3 obj3))))"

text \<open>The events a call added to the record of calls.\<close>

definition new_calls :: "'o state \<Rightarrow> 'o state \<Rightarrow> event list" where
  "new_calls s s' = drop (length (calls s)) (calls s')"

subsection \<open>PlugsMixin\<close>

text \<open>
  An attachment (plug) exposes the two dictionaries \<open>pre_hooks\<close> and \<open>post_hooks\<close> from
  names to hooks.
\<close>

record plug =
  pre_hooks :: "name \<rightharpoonup> fid"
  post_hooks :: "name \<rightharpoonup> fid"

text \<open>
  What the default attribute lookup \<open>super().__getattribute__(name)\<close> can find on a host
  object: a value that is not callable, a callable, or a dictionary of attachments in
  insertion order (what \<open>_plugs\<close> holds).  The host object is the table of these.
\<close>

datatype attr = Data pyval | Callable fid | Plugs "(name \<times> plug) list"

type_synonym host = "name \<rightharpoonup> attr"

text \<open>
  What the expression \<open>self.name\<close> evaluates to: an attribute as found, an attachment
  (from \<open>__getattr__\<close>), or the closure \<open>combi_hook\<close> with its captured \<open>attr\<close>,
  \<open>pre_funcs\<close> and \<open>post_funcs\<close>.
\<close>

datatype member = Attr attr | Attachment plug | Combi_hook fid "fid list" "fid list"

text \<open>
  The loop of \<open>__getattribute__\<close> (lines 62 to 70),
  \<open>for name, plug in self._plugs.items()\<close>.  The loop variable \<open>name\<close> rebinds the
  parameter \<open>name\<close> of \<open>__getattribute__\<close>: inside the loop \<open>plug.pre_hooks[name]\<close> and
  \<open>plug.post_hooks[name]\<close> are looked up under the key of the attachment in \<open>_plugs\<close>, and
  the name of the accessed member is not read.  A \<open>KeyError\<close> is passed over.
\<close>

fun hooks_loop :: "(name \<times> plug) list \<Rightarrow> fid list \<times> fid list \<Rightarrow> fid list \<times> fid list" where
  "hooks_loop [] (pre_funcs, post_funcs) = (pre_funcs, post_funcs)"
| "hooks_loop ((name, plug) # rest) (pre_funcs, post_funcs) =
     hooks_loop rest
       (case pre_hooks plug name of Some f \<Rightarrow> pre_funcs @ [f] | None \<Rightarrow> pre_funcs,
        case post_hooks plug name of Some f \<Rightarrow> post_funcs @ [f] | None \<Rightarrow> post_funcs)"

text \<open>
  Attribute access.  \<open>lookup\<close> is the expression \<open>self.name\<close>: Python calls
  \<open>__getattribute__\<close> and, when that raises \<open>AttributeError\<close>, \<open>__getattr__\<close>.  Both
  methods evaluate \<open>self._plugs\<close>, which is such an expression again.  The first
  argument is the number of further nested calls the interpreter allows: a call beyond
  it raises \<open>RecursionError\<close>, as at Python's recursion limit.

  \<open>__getattribute__\<close>: the attribute as \<open>super()\<close> finds it; returned as it is when it
  is not callable, or when no hook was collected; else wrapped.
  \<open>__getattr__\<close>: \<open>self._plugs[name]\<close>, a \<open>KeyError\<close> turned into \<open>AttributeError\<close>.
  An object under \<open>_plugs\<close> that is no dictionary has no \<open>items\<close> (\<open>AttributeError\<close>) and
  no subscript (\<open>TypeError\<close>).
\<close>

fun lookup :: "nat \<Rightarrow> host \<Rightarrow> name \<Rightarrow> pyerr + member"
  and getattribute :: "nat \<Rightarrow> host \<Rightarrow> name \<Rightarrow> pyerr + member"
  and getattr :: "nat \<Rightarrow> host \<Rightarrow> name \<Rightarrow> pyerr + member" where
  "lookup d self name =
     (case getattribute d self name of
        Inl AttributeError \<Rightarrow> getattr d self name
      | r \<Rightarrow> r)"
| "getattribute 0 self name = Inl RecursionError"
| "getattribute (Suc d) self name =
     (case self name of
        None \<Rightarrow> Inl AttributeError
      | Some (Callable f) \<Rightarrow>
          (case lookup d self ''_plugs'' of
             Inl e \<Rightarrow> Inl e
           | Inr (Attr (Plugs ps)) \<Rightarrow>
               (case hooks_loop ps ([], []) of
                  (pre_funcs, post_funcs) \<Rightarrow>
                    if pre_funcs = [] \<and> post_funcs = [] then Inr (Attr (Callable f))
                    else Inr (Combi_hook f pre_funcs post_funcs))
           | Inr _ \<Rightarrow> Inl AttributeError)
      | Some a \<Rightarrow> Inr (Attr a))"
| "getattr 0 self name = Inl RecursionError"
| "getattr (Suc d) self name =
     (case lookup d self ''_plugs'' of
        Inl KeyError \<Rightarrow> Inl AttributeError
      | Inl e \<Rightarrow> Inl e
      | Inr (Attr (Plugs ps)) \<Rightarrow>
          (case map_of ps name of
             None \<Rightarrow> Inl AttributeError
           | Some p \<Rightarrow> Inr (Attachment p))
      | Inr _ \<Rightarrow> Inl TypeError)"

text \<open>
  \<open>__setattr__(self, name, value)\<close>: \<open>name in self._plugs\<close>, then the default
  \<open>super().__setattr__\<close>, which stores the value in the object.
\<close>

fun setattr :: "nat \<Rightarrow> host \<Rightarrow> name \<Rightarrow> attr \<Rightarrow> host \<times> pyerr option" where
  "setattr 0 self name v = (self, Some RecursionError)"
| "setattr (Suc d) self name v =
     (case lookup d self ''_plugs'' of
        Inl e \<Rightarrow> (self, Some e)
      | Inr (Attr (Plugs ps)) \<Rightarrow>
          if name \<in> fst ` set ps then (self, Some AttributeError)
          else (self(name \<mapsto> v), None)
      | Inr _ \<Rightarrow> (self, Some TypeError))"

text \<open>
  \<open>__init__(self, *args, **kwargs)\<close>: the assignment \<open>self._plugs = dict()\<close> is a call of
  \<open>__setattr__\<close>.  \<open>self\<close> is the object as created, before \<open>__init__\<close> ran.
\<close>

fun PlugsMixin_init :: "nat \<Rightarrow> host \<Rightarrow> host \<times> pyerr option" where
  "PlugsMixin_init 0 self = (self, Some RecursionError)"
| "PlugsMixin_init (Suc d) self = setattr d self ''_plugs'' (Plugs [])"

text \<open>
  Calling what an access returned, \<open>member(*pos, **kwargs)\<close>.  \<open>combi_hook\<close> is a plain
  function: its parameter \<open>obj\<close> is bound to the first positional argument, or to the
  keyword \<open>obj\<close> when there is no positional one; neither or both is a \<open>TypeError\<close>.
\<close>

definition invoke ::
  "'o env \<Rightarrow> member \<Rightarrow> 'o state \<Rightarrow> pyval list \<Rightarrow> kwargs \<Rightarrow> 'o state \<times> (pyerr + pyval)" where
  "invoke E m s pos kwargs =
     (case m of
        Attr (Callable f) \<Rightarrow> call_logged E f s pos kwargs
      | Combi_hook a pre_funcs post_funcs \<Rightarrow>
          (case pos of
             obj # args \<Rightarrow>
               if ''obj'' \<in> fst ` set kwargs then (s, Inl TypeError)
               else combi_hook E a pre_funcs post_funcs s obj args kwargs
           | [] \<Rightarrow>
               (case map_of kwargs ''obj'' of
                  None \<Rightarrow> (s, Inl TypeError)
                | Some obj \<Rightarrow>
                    combi_hook E a pre_funcs post_funcs s obj []
                      (filter (\<lambda>p. fst p \<noteq> ''obj'') kwargs)))
      | _ \<Rightarrow> (s, Inl TypeError))"

subsection \<open>Conditions on callables, and data for evaluation\<close>

text \<open>
  Whether the wrapped attribute declares a parameter \<open>inplace\<close>, among
  \<open>spec.args\<close> or \<open>spec.kwonlyargs\<close>.
\<close>

definition declares_inplace :: "'o env \<Rightarrow> fid \<Rightarrow> bool" where
  "declares_inplace E attr =
     (case getfullargspec E attr of
        Inl e \<Rightarrow> False
      | Inr (spec_args, spec_kwonlyargs) \<Rightarrow>
          ''inplace'' \<in> set spec_args \<or> ''inplace'' \<in> set spec_kwonlyargs)"

text \<open>
  Conditions on the callables of an environment.  \<open>leaves r g\<close>: called on a working
  value other than the object \<open>r\<close>, \<open>g\<close> neither changes \<open>r\<close> nor returns it.
  \<open>independent_copy E r\<close>: \<open>copy()\<close> of \<open>r\<close> does not change \<open>r\<close> and returns another
  object.  \<open>returns_given g\<close>: \<open>g\<close> returns the working value it was given, as a hook
  that works in place does.  \<open>succeeds_in_place g\<close>: \<open>g\<close> moreover never raises.
\<close>

definition leaves ::
  "nat \<Rightarrow> ('o heap \<Rightarrow> pyval list \<Rightarrow> kwargs \<Rightarrow> 'o heap \<times> (pyerr + pyval)) \<Rightarrow> bool" where
  "leaves r g \<longleftrightarrow>
     (\<forall>h w args kw. w \<noteq> VRef r \<longrightarrow>
        fst (g h (w # args) kw) r = h r \<and> snd (g h (w # args) kw) \<noteq> Inr (VRef r))"

definition independent_copy :: "'o env \<Rightarrow> nat \<Rightarrow> bool" where
  "independent_copy E r \<longleftrightarrow>
     (\<forall>h. fst (copy_of E h (VRef r)) r = h r \<and> snd (copy_of E h (VRef r)) \<noteq> Inr (VRef r))"

definition returns_given ::
  "('o heap \<Rightarrow> pyval list \<Rightarrow> kwargs \<Rightarrow> 'o heap \<times> (pyerr + pyval)) \<Rightarrow> bool" where
  "returns_given g \<longleftrightarrow> (\<forall>h w args kw v. snd (g h (w # args) kw) = Inr v \<longrightarrow> v = w)"

definition succeeds_in_place ::
  "('o heap \<Rightarrow> pyval list \<Rightarrow> kwargs \<Rightarrow> 'o heap \<times> (pyerr + pyval)) \<Rightarrow> bool" where
  "succeeds_in_place g \<longleftrightarrow> (\<forall>h w args kw. snd (g h (w # args) kw) = Inr w)"

text \<open>
  Descriptions of a run.  \<open>calls_on w args kw fs\<close>: the callables \<open>fs\<close> called in
  order, each on the working value \<open>w\<close> with the arguments \<open>args\<close> and \<open>kw\<close>.
  \<open>runs_on E fs w args kw evs res\<close>: the calls \<open>evs\<close> and the outcome \<open>res\<close> are those of
  calling \<open>fs\<close> in order on \<open>w\<close>: either all were called and \<open>w\<close> is returned, or
  the calls end with the first callable that raised, and what it raised propagates.
\<close>

definition calls_on :: "pyval \<Rightarrow> pyval list \<Rightarrow> kwargs \<Rightarrow> fid list \<Rightarrow> event list" where
  "calls_on w args kw fs = map (\<lambda>f. Called f (w # args) kw) fs"

definition runs_on ::
  "'o env \<Rightarrow> fid list \<Rightarrow> pyval \<Rightarrow> pyval list \<Rightarrow> kwargs \<Rightarrow> event list \<Rightarrow> pyerr + pyval \<Rightarrow> bool"
  where
  "runs_on E fs w args kw evs res =
     (case res of
        Inr v \<Rightarrow> v = w \<and> evs = calls_on w args kw fs
      | Inl e \<Rightarrow>
          (\<exists>n. n < length fs \<and> evs = calls_on w args kw (take (Suc n) fs) \<and>
             (\<exists>h. snd (call_of E (fs ! n) h (w # args) kw) = Inl e)))"

text \<open>
  An environment for evaluation.  The state of an object is the list of the callables
  that ran on it.  Every callable appends its name to the object it is given first and
  returns what it was given first; \<open>copy()\<close> of the object at \<open>r\<close> puts a copy at \<open>r + 1\<close>; the
  callables listed in \<open>declaring\<close> declare a parameter \<open>inplace\<close>.
\<close>

definition log_env :: "fid list \<Rightarrow> (fid list) env" where
  "log_env declaring =
     \<lparr>call_of = (\<lambda>f h pos kw.
        case pos of
          VRef r # _ \<Rightarrow> (h(r := h r @ [f]), Inr (VRef r))
        | w # _ \<Rightarrow> (h, Inr w)
        | [] \<Rightarrow> (h, Inl TypeError)),
      copy_of = (\<lambda>h obj.
        case obj of
          VRef r \<Rightarrow> (h(Suc r := h r), Inr (VRef (Suc r)))
        | _ \<Rightarrow> (h, Inl AttributeError)),
      getfullargspec = (\<lambda>f.
        Inr (if f \<in> set declaring then [''self'', ''inplace''] else [''self''], []))\<rparr>"

definition start :: "(fid list) state" where
  "start = \<lparr>heap = (\<lambda>r. []), calls = []\<rparr>"

text \<open>
  Host objects for evaluation.  \<open>host_names\<close>: a method \<open>tile\<close> and one attachment, stored
  under the name \<open>names\<close>, whose only hook is a pre-hook \<open>h\<close> for \<open>tile\<close>.
  \<open>host_AB\<close>: a method \<open>op\<close> and the attachments \<open>A\<close>, then \<open>B\<close>, each with a pre-hook and
  a post-hook for \<open>op\<close>.  \<open>host_tile\<close>: as \<open>host_names\<close>, with a second method \<open>copy\<close> and
  the attachment stored under the name \<open>tile\<close>.
\<close>

definition host_names :: host where
  "host_names =
     [''tile'' \<mapsto> Callable ''tile'',
      ''_plugs'' \<mapsto> Plugs [(''names'', \<lparr>pre_hooks = [''tile'' \<mapsto> ''h''], post_hooks = Map.empty\<rparr>)]]"

definition host_AB :: host where
  "host_AB =
     [''op'' \<mapsto> Callable ''op'',
      ''_plugs'' \<mapsto> Plugs
        [(''A'', \<lparr>pre_hooks = [''op'' \<mapsto> ''A.pre''], post_hooks = [''op'' \<mapsto> ''A.post'']\<rparr>),
         (''B'', \<lparr>pre_hooks = [''op'' \<mapsto> ''B.pre''], post_hooks = [''op'' \<mapsto> ''B.post'']\<rparr>)]]"

definition host_tile :: host where
  "host_tile =
     [''tile'' \<mapsto> Callable ''tile'', ''copy'' \<mapsto> Callable ''copy'',
      ''_plugs'' \<mapsto> Plugs [(''tile'', \<lparr>pre_hooks = [''tile'' \<mapsto> ''h''], post_hooks = Map.empty\<rparr>)]]"

section \<open>Properties of sisl/mixing/base.py\<close>

subsection \<open>Metric.inner\<close>

lemma metric_Metric_init: "metric (Metric_init m) = spec_transform m"
  by (cases m) (auto simp: Metric_init_def spec_transform_def dummy_dot_def fun_eq_iff)

text \<open>
  C10, as the claim states it, fails on the code.  \<open>inner\<close> returns what the native
  reduction returns whenever that succeeds.  For two matrices the native reduction is
  the matrix product: with the default metric, \<open>inner\<close> of \<open>[[1, 2], [3, 4]]\<close> and the unit
  matrix is the matrix \<open>[[1, 2], [3, 4]]\<close>, and \<open>sum(a * b)\<close> is 5.
\<close>

theorem Metric_inner_counterexample:
  "Metric_inner ndarrays (Metric_init None) (Mat [[1, 2], [3, 4]]) (Mat [[1, 0], [0, 1]]) =
     Inr (Mat [[1, 2], [3, 4]]) \<and>
   spec_sum_of_product ndarrays (spec_transform None) (Mat [[1, 2], [3, 4]]) (Mat [[1, 0], [0, 1]]) =
     Inr (Scalar 5)"
  by (simp add: Metric_inner_def Metric_init_def dummy_dot_def spec_sum_of_product_def
      spec_transform_def ndarrays_def)

lemma int_vectors_agree:
  "dot int_vectors a mb = Inr r \<Longrightarrow>
   \<exists>p. mul int_vectors a mb = Inr p \<and> sum_all int_vectors p = Inr r"
  by (auto simp: int_vectors_def split: if_splits)

lemma Metric_inner_int_vectors:
  "Metric_inner int_vectors (Metric_init mi) x y =
     spec_sum_of_product int_vectors (spec_transform mi) x y"
proof (cases "spec_transform mi y")
  case (Inl e)
  then show ?thesis
    by (simp add: Metric_inner_def spec_sum_of_product_def metric_Metric_init)
next
  case (Inr my)
  show ?thesis
  proof (cases "dot int_vectors x my")
    case (Inl e)
    then show ?thesis
      using Inr by (simp add: Metric_inner_def spec_sum_of_product_def metric_Metric_init)
  next
    case r: (Inr r)
    from int_vectors_agree[OF r] obtain p where
      "mul int_vectors x my = Inr p" "sum_all int_vectors p = Inr r" by blast
    then show ?thesis
      using Inr r by (simp add: Metric_inner_def spec_sum_of_product_def metric_Metric_init)
  qed
qed

text \<open>
  C10, amended.  \<open>inner(a, b)\<close> of a metric built from \<open>m\<close>, with \<open>M\<close> the held transform
  (the identity when none was given), tries the native reduction \<open>a.dot(M(b))\<close> first
  and returns its result when it succeeds; when it fails, be it that \<open>M(b)\<close> raises or
  that \<open>a.dot\<close> does, \<open>inner\<close> is \<open>sum(a * M(b))\<close> and the failure does not propagate.
  So \<open>inner(a, b)\<close> is \<open>sum(a * M(b))\<close> for operands on which the native reduction
  fails or agrees with the sum of the elementwise product; for integer vectors it
  always is.
\<close>

theorem Metric_inner_sum_of_product:
  "((\<forall>mb r. spec_transform m b = Inr mb \<and> dot V a mb = Inr r \<longrightarrow>
        (\<exists>p. mul V a mb = Inr p \<and> sum_all V p = Inr r)) \<longrightarrow>
      Metric_inner V (Metric_init m) a b = spec_sum_of_product V (spec_transform m) a b) \<and>
   ((case spec_transform m b of Inl e \<Rightarrow> True | Inr mb \<Rightarrow> isl (dot V a mb)) \<longrightarrow>
      Metric_inner V (Metric_init m) a b = spec_sum_of_product V (spec_transform m) a b) \<and>
   (\<forall>mb r. spec_transform m b = Inr mb \<and> dot V a mb = Inr r \<longrightarrow>
      Metric_inner V (Metric_init m) a b = Inr r) \<and>
   Metric_inner int_vectors (Metric_init mi) x y =
     spec_sum_of_product int_vectors (spec_transform mi) x y"
proof -
  have "((\<forall>mb r. spec_transform m b = Inr mb \<and> dot V a mb = Inr r \<longrightarrow>
        (\<exists>p. mul V a mb = Inr p \<and> sum_all V p = Inr r)) \<longrightarrow>
      Metric_inner V (Metric_init m) a b = spec_sum_of_product V (spec_transform m) a b) \<and>
   ((case spec_transform m b of Inl e \<Rightarrow> True | Inr mb \<Rightarrow> isl (dot V a mb)) \<longrightarrow>
      Metric_inner V (Metric_init m) a b = spec_sum_of_product V (spec_transform m) a b) \<and>
   (\<forall>mb r. spec_transform m b = Inr mb \<and> dot V a mb = Inr r \<longrightarrow>
      Metric_inner V (Metric_init m) a b = Inr r)"
    unfolding Metric_inner_def spec_sum_of_product_def metric_Metric_init
    by (auto split: sum.splits)
  then show ?thesis using Metric_inner_int_vectors by blast
qed

theorem Metric_inner_witness:
  "Metric_inner int_vectors (Metric_init None) [1, 2, 3] [4, 5, 6] = Inr 32 \<and>
   spec_sum_of_product int_vectors (spec_transform None) [1, 2, 3] [4, 5, 6] = Inr 32 \<and>
   Metric_inner int_vectors_no_dot (Metric_init None) [1, 2, 3] [4, 5, 6] = Inr 32 \<and>
   Metric_inner int_vectors (Metric_init (Some (\<lambda>b. Inr (map ((*) 2) b)))) [1, 2, 3] [4, 5, 6]
     = Inr 64"
proof -
  have agree: "\<forall>mb r. spec_transform None [4, 5, 6] = Inr mb \<and> dot int_vectors [1, 2, 3] mb = Inr r \<longrightarrow>
        (\<exists>p. mul int_vectors [1, 2, 3] mb = Inr p \<and> sum_all int_vectors p = Inr r)"
    by (auto simp: int_vectors_def spec_transform_def split: if_splits)
  have fails: "case spec_transform None [4, 5, 6] of Inl e \<Rightarrow> True
               | Inr mb \<Rightarrow> isl (dot int_vectors_no_dot [1, 2, 3] mb)"
    by (simp add: int_vectors_no_dot_def spec_transform_def)
  let ?M = "Some (\<lambda>b::int list. Inr (map ((*) 2) b) :: pyerr + int list)"
  have runs: "spec_transform ?M [4, 5, 6] = Inr [8, 10, 12] \<and>
              dot int_vectors [1, 2, 3] [8, 10, 12] = Inr 64"
    by (simp add: int_vectors_def spec_transform_def)
  have s: "spec_sum_of_product int_vectors (spec_transform None) [1, 2, 3] [4, 5, 6] = Inr 32"
       "spec_sum_of_product int_vectors_no_dot (spec_transform None) [1, 2, 3] [4, 5, 6] = Inr 32"
    by (simp_all add: spec_sum_of_product_def int_vectors_no_dot_def int_vectors_def spec_transform_def)
  from Metric_inner_sum_of_product[where m = None and b = "[4, 5, 6]" and V = int_vectors
      and a = "[1, 2, 3]"] agree
  have 1: "Metric_inner int_vectors (Metric_init None) [1, 2, 3] [4, 5, 6] =
      spec_sum_of_product int_vectors (spec_transform None) [1, 2, 3] [4, 5, 6]"
    by blast
  from Metric_inner_sum_of_product[where m = None and b = "[4, 5, 6]" and V = int_vectors_no_dot
      and a = "[1, 2, 3]"] fails
  have 2: "Metric_inner int_vectors_no_dot (Metric_init None) [1, 2, 3] [4, 5, 6] =
      spec_sum_of_product int_vectors_no_dot (spec_transform None) [1, 2, 3] [4, 5, 6]"
    by blast
  from Metric_inner_sum_of_product[where m = ?M and b = "[4, 5, 6]" and V = int_vectors
      and a = "[1, 2, 3]"] runs
  have 3: "Metric_inner int_vectors (Metric_init ?M) [1, 2, 3] [4, 5, 6] = Inr 64"
    by blast
  from 1 2 3 s show ?thesis by simp
qed

subsection \<open>History.append\<close>

lemma py_index_error: "py_index n i = Inl e \<Longrightarrow> e = IndexError"
  by (auto simp: py_index_def Let_def split: if_splits)

lemma py_index_bound: "py_index n i = Inr j \<Longrightarrow> j < n"
  by (auto simp: py_index_def Let_def split: if_splits)

lemma append_loop_no_ValueError: "snd (append_loop zs self) \<noteq> Some ValueError"
  by (induction zs self rule: append_loop.induct) (auto split: sum.splits dest: py_index_error)

lemma append_loop_length: "length (fst (append_loop zs self)) = length self"
  by (induction zs self rule: append_loop.induct) (auto split: sum.splits)

lemma append_loop_slots:
  "\<forall>p \<in> set zs. py_index (length self) (fst p) \<noteq> Inl IndexError \<Longrightarrow>
   snd (append_loop zs self) = None \<and>
   (\<forall>j < length self. fst (append_loop zs self) ! j =
       fold deque_append (values_for (length self) j zs) (self ! j))"
proof (induction zs self rule: append_loop.induct)
  case (1 self)
  then show ?case by (simp add: values_for_def)
next
  case (2 i arg rest self)
  from 2(2) obtain k where k: "py_index (length self) i = Inr k"
    by (cases "py_index (length self) i") (auto dest: py_index_error)
  then have kb: "k < length self" by (rule py_index_bound)
  let ?s = "self[k := deque_append arg (self ! k)]"
  have "\<forall>p \<in> set rest. py_index (length ?s) (fst p) \<noteq> Inl IndexError"
    using 2(2) by simp
  from 2(1)[OF k this] show ?case
    using k kb by (auto simp: values_for_def nth_list_update)
qed

lemma py_index_nat: "k < n \<Longrightarrow> py_index n (int k) = Inr k"
  by (simp add: py_index_def)

lemma append_loop_range:
  "k + length args \<le> length self \<Longrightarrow>
   append_loop (zip (map int [k..<k + length args]) args) self =
     (take k self @ map2 (\<lambda>d a. deque_append a d) (take (length args) (drop k self)) args
        @ drop (k + length args) self, None)"
proof (induction args arbitrary: k self)
  case Nil
  then show ?case by simp
next
  case (Cons a as)
  have k: "k < length self" using Cons.prems by simp
  let ?s = "self[k := deque_append a (self ! k)]"
  have "Suc k + length as \<le> length ?s" using Cons.prems by simp
  from Cons.IH[OF this] show ?case
    using k
    by (simp add: upt_conv_Cons py_index_nat take_Suc_conv_app_nth upd_conv_take_nth_drop
        Cons_nth_drop_Suc[symmetric] add.commute del: upt_Suc)
qed

lemma append_loop_length_eq: "append_loop zs self = (s', r) \<Longrightarrow> length s' = length self"
  using append_loop_length[of zs self] by simp

lemma append_loop_append:
  "append_loop (zs1 @ zs2) self =
     (case append_loop zs1 self of
        (s', None) \<Rightarrow> append_loop zs2 s'
      | (s', Some e) \<Rightarrow> (s', Some e))"
  by (induction zs1 self rule: append_loop.induct) (auto split: sum.splits)

lemma append_loop_first_invalid:
  assumes l: "length args = length vs" and k: "k < length vs"
    and ok: "\<forall>i \<in> set (take k vs). py_index (length self) i \<noteq> Inl IndexError"
    and bad: "py_index (length self) (vs ! k) = Inl IndexError"
  shows "append_loop (zip vs args) self =
           (fst (append_loop (zip (take k vs) (take k args)) self), Some IndexError)"
proof -
  let ?z1 = "zip (take k vs) (take k args)"
  have ka: "k < length args" using l k by simp
  have vs: "vs = take k vs @ vs ! k # drop (Suc k) vs" using k by (rule id_take_nth_drop)
  have args: "args = take k args @ args ! k # drop (Suc k) args" using ka by (rule id_take_nth_drop)
  have "zip vs args = zip (take k vs @ vs ! k # drop (Suc k) vs)
      (take k args @ args ! k # drop (Suc k) args)"
    using vs args by simp
  also have "\<dots> = ?z1 @ (vs ! k, args ! k) # zip (drop (Suc k) vs) (drop (Suc k) args)"
    using k ka by (subst zip_append) simp_all
  finally have z: "zip vs args =
      ?z1 @ (vs ! k, args ! k) # zip (drop (Suc k) vs) (drop (Suc k) args)" .
  have "\<forall>p \<in> set ?z1. py_index (length self) (fst p) \<noteq> Inl IndexError"
    using ok by (auto dest: set_zip_leftD)
  from append_loop_slots[OF this] have n: "snd (append_loop ?z1 self) = None" by simp
  obtain s' where s': "append_loop ?z1 self = (s', None)"
    using n by (cases "append_loop ?z1 self") simp
  have "length s' = length self" using s' by (rule append_loop_length_eq)
  then show ?thesis
    unfolding z append_loop_append s' using bad by simp
qed


lemma History_append_IndexError:
  assumes "length args = length (selected self variables)" and "k < length args"
    and "\<forall>i \<in> set (take k (selected self variables)).
           py_index (length self) i \<noteq> Inl IndexError"
    and "py_index (length self) (selected self variables ! k) = Inl IndexError"
  shows "History_append args variables self =
           (fst (History_append (take k args) (Some (take k (selected self variables))) self),
            Some IndexError)"
proof -
  let ?vs = "selected self variables"
  have k: "k < length ?vs" using assms(1,2) by simp
  have a: "History_append args variables self = append_loop (zip ?vs args) self"
    using assms(1) by (simp add: History_append_def Let_def)
  have b: "History_append (take k args) (Some (take k ?vs)) self =
      append_loop (zip (take k ?vs) (take k args)) self"
    using assms(1) by (simp add: History_append_def Let_def selected_def)
  show ?thesis
    unfolding a b by (rule append_loop_first_invalid[OF assms(1) k assms(3,4)])
qed

text \<open>
  C8, as the claim states it, fails on the code.  With as many values as selected
  indices the call need not append each value: \<open>append(7, 8, variables=[0, 5])\<close> on a
  history of two slots appends 7 to slot 0 and then raises \<open>IndexError\<close>, since
  \<open>self._hist[5]\<close> is no slot.
\<close>

theorem History_append_counterexample:
  "length [7, 8 :: int] = length (selected h0 (Some [0, 5])) \<and>
   History_append [7, 8] (Some [0, 5]) h0 =
     ([\<lparr>maxlen = Some 2, elems = [2, 7]\<rparr>, \<lparr>maxlen = Some 2, elems = [5]\<rparr>], Some IndexError)"
  by (simp add: History_append_def selected_def h0_def py_index_def deque_append_def)

text \<open>
  C8, amended.  \<open>append(*args, variables=vs)\<close> raises \<open>ValueError\<close> (the LengthMismatch
  condition) exactly when the number of values differs from the number of selected
  indices, all slots when \<open>variables\<close> is omitted; then no slot is modified.  Otherwise,
  when every selected index is a slot of the history, the call returns, and every slot
  holds what appending to it the values directed to it, in the order of the call,
  gives; with \<open>variables\<close> omitted that is: value number \<open>k\<close> is appended to slot number
  \<open>k\<close>.  When a selected index is no slot, the call raises \<open>IndexError\<close>, and the history
  is as the values before the first such index left it.
\<close>

theorem History_append_LengthMismatch:
  "(snd (History_append args variables self) = Some ValueError
      \<longleftrightarrow> length args \<noteq> length (selected self variables)) \<and>
   (length args \<noteq> length (selected self variables) \<longrightarrow>
      fst (History_append args variables self) = self) \<and>
   (length args = length (selected self variables) \<and>
    (\<forall>i \<in> set (selected self variables). py_index (length self) i \<noteq> Inl IndexError) \<longrightarrow>
      snd (History_append args variables self) = None \<and>
      length (fst (History_append args variables self)) = length self \<and>
      (\<forall>j < length self. fst (History_append args variables self) ! j =
         fold deque_append
           (values_for (length self) j (zip (selected self variables) args)) (self ! j))) \<and>
   (length args = length self \<longrightarrow>
      History_append args None self = (map2 (\<lambda>d a. deque_append a d) self args, None)) \<and>
   (length args = length (selected self variables) \<and> k < length args \<and>
    (\<forall>i \<in> set (take k (selected self variables)).
       py_index (length self) i \<noteq> Inl IndexError) \<and>
    py_index (length self) (selected self variables ! k) = Inl IndexError \<longrightarrow>
      History_append args variables self =
        (fst (History_append (take k args) (Some (take k (selected self variables))) self),
         Some IndexError))"
proof (intro conjI impI)
  show "snd (History_append args variables self) = Some ValueError
      \<longleftrightarrow> length args \<noteq> length (selected self variables)"
    by (simp add: History_append_def Let_def append_loop_no_ValueError)
  show "fst (History_append args variables self) = self"
    if "length args \<noteq> length (selected self variables)"
    using that by (simp add: History_append_def Let_def)
next
  assume h: "length args = length (selected self variables) \<and>
    (\<forall>i \<in> set (selected self variables). py_index (length self) i \<noteq> Inl IndexError)"
  let ?zs = "zip (selected self variables) args"
  have eq: "History_append args variables self = append_loop ?zs self"
    using h by (simp add: History_append_def Let_def)
  have "\<forall>p \<in> set ?zs. py_index (length self) (fst p) \<noteq> Inl IndexError"
    using h by (auto dest: set_zip_leftD)
  from append_loop_slots[OF this]
  show "snd (History_append args variables self) = None"
    and "\<forall>j < length self. fst (History_append args variables self) ! j =
         fold deque_append (values_for (length self) j ?zs) (self ! j)"
    unfolding eq by simp_all
  show "length (fst (History_append args variables self)) = length self"
    unfolding eq by (rule append_loop_length)
next
  assume l: "length args = length self"
  have "append_loop (zip (map int [0..<0 + length args]) args) self =
     (take 0 self @ map2 (\<lambda>d a. deque_append a d) (take (length args) (drop 0 self)) args
        @ drop (0 + length args) self, None)"
    by (rule append_loop_range) (simp add: l)
  then show "History_append args None self = (map2 (\<lambda>d a. deque_append a d) self args, None)"
    using l by (simp add: History_append_def selected_def History_variables_def)
next
  assume "length args = length (selected self variables) \<and> k < length args \<and>
    (\<forall>i \<in> set (take k (selected self variables)).
       py_index (length self) i \<noteq> Inl IndexError) \<and>
    py_index (length self) (selected self variables ! k) = Inl IndexError"
  then show "History_append args variables self =
        (fst (History_append (take k args) (Some (take k (selected self variables))) self),
         Some IndexError)"
    by (intro History_append_IndexError) simp_all
qed

theorem History_append_witness:
  "History_append [3, 6] None h0 =
     ([\<lparr>maxlen = Some 2, elems = [2, 3]\<rparr>, \<lparr>maxlen = Some 2, elems = [5, 6]\<rparr>], None) \<and>
   History_append [3] None h0 = (h0, Some ValueError) \<and>
   History_append [7] (Some [-1]) h0 =
     ([\<lparr>maxlen = Some 2, elems = [1, 2]\<rparr>, \<lparr>maxlen = Some 2, elems = [5, 7]\<rparr>], None) \<and>
   History_append [7, 8] (Some [0, 5]) h0 =
     (fst (History_append [7] (Some [0]) h0), Some IndexError)"
proof -
  have l: "length h0 = 2" by (simp add: h0_def)
  have d: "length [7, 8::int] = length (selected h0 (Some [0, 5])) \<and> 1 < length [7, 8::int] \<and>
      (\<forall>i \<in> set (take 1 (selected h0 (Some [0, 5]))).
         py_index (length h0) i \<noteq> Inl IndexError) \<and>
      py_index (length h0) (selected h0 (Some [0, 5]) ! 1) = Inl IndexError"
    by (simp add: selected_def l py_index_def)
  note t4 = History_append_LengthMismatch[where args = "[7, 8]" and variables = "Some [0, 5]"
      and self = h0 and k = 1]
  from t4 d have "History_append [7, 8] (Some [0, 5]) h0 =
      (fst (History_append (take 1 [7, 8]) (Some (take 1 (selected h0 (Some [0, 5])))) h0),
       Some IndexError)"
    by blast
  then have 4: "History_append [7, 8] (Some [0, 5]) h0 =
     (fst (History_append [7] (Some [0]) h0), Some IndexError)"
    by (simp add: selected_def)
  have a: "length [3, 6::int] = length h0"
    and b: "length [3::int] \<noteq> length (selected h0 None)"
    and c: "length [7::int] = length (selected h0 (Some [-1])) \<and>
      (\<forall>i \<in> set (selected h0 (Some [-1])). py_index (length h0) i \<noteq> Inl IndexError)"
    by (simp_all add: selected_def History_variables_def l py_index_def)
  note t1 = History_append_LengthMismatch[of "[3, 6]" None h0]
  note t2 = History_append_LengthMismatch[of "[3]" None h0]
  note t3 = History_append_LengthMismatch[of "[7]" "Some [-1]" h0]
  have 1: "History_append [3, 6] None h0 =
     ([\<lparr>maxlen = Some 2, elems = [2, 3]\<rparr>, \<lparr>maxlen = Some 2, elems = [5, 6]\<rparr>], None)"
    using t1 a by (simp add: h0_def deque_append_def)
  have 2: "History_append [3] None h0 = (h0, Some ValueError)"
    using t2 b by (simp add: prod_eq_iff)
  from t3 c have 3: "snd (History_append [7] (Some [-1]) h0) = None"
    "length (fst (History_append [7] (Some [-1]) h0)) = length h0"
    "\<forall>j < length h0. fst (History_append [7] (Some [-1]) h0) ! j =
         fold deque_append
           (values_for (length h0) j (zip (selected h0 (Some [-1])) [7])) (h0 ! j)"
    by blast+
  have "fst (History_append [7] (Some [-1]) h0) =
     [\<lparr>maxlen = Some 2, elems = [1, 2]\<rparr>, \<lparr>maxlen = Some 2, elems = [5, 7]\<rparr>]"
    using 3(2,3) by (intro nth_equalityI)
      (auto simp: l less_Suc_eq numeral_2_eq_2 selected_def values_for_def py_index_def
         h0_def deque_append_def)
  with 3(1) have "History_append [7] (Some [-1]) h0 =
     ([\<lparr>maxlen = Some 2, elems = [1, 2]\<rparr>, \<lparr>maxlen = Some 2, elems = [5, 7]\<rparr>], None)"
    by (simp add: prod_eq_iff)
  with 1 2 4 show ?thesis by simp
qed

subsection \<open>History.clear\<close>

lemma nths_cong_below:
  "(\<And>j. j < length xs \<Longrightarrow> (j \<in> A) = (j \<in> B)) \<Longrightarrow> nths xs A = nths xs B"
proof -
  assume h: "\<And>j. j < length xs \<Longrightarrow> (j \<in> A) = (j \<in> B)"
  have "filter (\<lambda>p. snd p \<in> A) (zip xs [0..<length xs]) = filter (\<lambda>p. snd p \<in> B) (zip xs [0..<length xs])"
    by (rule filter_cong) (auto dest!: set_zip_rightD simp: h)
  then show ?thesis by (simp add: nths_def)
qed

lemma nths_delete_mid:
  assumes below: "\<And>r. r \<in> R \<Longrightarrow> r < length ys"
  shows "nths (ys @ zs) {j. j \<notin> R} = nths (ys @ [x] @ zs) {j. j \<notin> insert (length ys) R}"
proof -
  have a: "nths ys {j. j \<notin> R} = nths ys {j. j \<notin> insert (length ys) R}"
    by (rule nths_cong_below) auto
  have b: "{j. j + length ys \<notin> R} = UNIV" using below by fastforce
  have c: "{j. Suc (j + length ys) \<notin> R} = UNIV"
    using below by fastforce
  show ?thesis
    by (simp add: nths_append nths_Cons a b c)
qed

lemma nths_delete_top:
  assumes i: "i < length xs" and below: "\<And>r. r \<in> R \<Longrightarrow> r < i"
  shows "nths (take i xs @ drop (Suc i) xs) {j. j \<notin> R} = nths xs {j. j \<notin> insert i R}"
proof -
  have l: "length (take i xs) = i" using i by simp
  have "nths (take i xs @ drop (Suc i) xs) {j. j \<notin> R} =
        nths (take i xs @ [xs ! i] @ drop (Suc i) xs) {j. j \<notin> insert (length (take i xs)) R}"
    by (rule nths_delete_mid) (use below l in auto)
  also have "take i xs @ [xs ! i] @ drop (Suc i) xs = xs"
    using i by (simp add: id_take_nth_drop[symmetric])
  finally show ?thesis using l by simp
qed

lemma delete_loop_descending:
  "sorted_wrt (>) ds \<Longrightarrow> py_index (length self) v = Inr k \<Longrightarrow>
   \<forall>i \<in> set ds. 0 \<le> i \<and> i < int (length (elems (self ! k))) \<Longrightarrow>
   delete_loop v ds self =
     (self[k := (self ! k)\<lparr>elems := without_positions (elems (self ! k)) ds\<rparr>], None)"
proof (induction ds arbitrary: self)
  case Nil
  then show ?case by (simp add: without_positions_def nths_all)
next
  case (Cons i rest)
  let ?d = "self ! k"
  define m where "m = nat i"
  have i: "i = int m" and m: "m < length (elems ?d)" using Cons.prems(3) by (auto simp: m_def)
  have kb: "k < length self" using Cons.prems(2) by (rule py_index_bound)
  let ?d' = "?d\<lparr>elems := take m (elems ?d) @ drop (Suc m) (elems ?d)\<rparr>"
  let ?s = "self[k := ?d']"
  have del: "deque_delitem i ?d = Inr ?d'"
    using m by (simp add: deque_delitem_def i py_index_nat)
  have below: "\<forall>r \<in> set rest. r < i" using Cons.prems(1) by auto
  have sk: "?s ! k = ?d'" using kb by simp
  have r: "\<forall>r \<in> set rest. 0 \<le> r \<and> r < int (length (elems (?s ! k)))"
    unfolding sk using Cons.prems(3) below m i by auto
  have "sorted_wrt (>) rest" using Cons.prems(1) by simp
  from Cons.IH[OF this, of ?s] Cons.prems(2) r
  have IH: "delete_loop v rest ?s =
      (?s[k := (?s ! k)\<lparr>elems := without_positions (elems (?s ! k)) rest\<rparr>], None)"
    by simp
  have "nths (take m (elems ?d) @ drop (Suc m) (elems ?d)) {j. j \<notin> {j. int j \<in> set rest}} =
        nths (elems ?d) {j. j \<notin> insert m {j. int j \<in> set rest}}"
    by (rule nths_delete_top) (use m below i in auto)
  then have w: "without_positions (elems ?d') rest = without_positions (elems ?d) (i # rest)"
    by (simp add: without_positions_def i)
  have "delete_loop v (i # rest) self = delete_loop v rest ?s"
    using Cons.prems(2) del by simp
  also have "\<dots> = (?s[k := ?d'\<lparr>elems := without_positions (elems ?d') rest\<rparr>], None)"
    using IH unfolding sk .
  finally show ?case using w by simp
qed

lemma descending_sort:
  "distinct ix \<Longrightarrow> sorted_wrt (>) (rev (sort (ix::int list)))"
proof -
  assume "distinct ix"
  then have "sorted_wrt (<) (sort ix)" by (simp add: strict_sorted_iff)
  then show ?thesis by (simp add: sorted_wrt_rev)
qed

lemma clear_index_loop_slots:
  assumes "sorted_wrt (>) ds" "\<forall>i \<in> set ds. 0 \<le> i"
    and "\<forall>v \<in> set vs. py_index (length self) v \<noteq> Inl IndexError"
    and "distinct (map (py_index (length self)) vs)"
    and "\<forall>v \<in> set vs. \<forall>j. py_index (length self) v = Inr j \<longrightarrow>
           (\<forall>i \<in> set ds. i < int (length (elems (self ! j))))"
  shows "snd (clear_index_loop vs ds self) = None \<and>
         length (fst (clear_index_loop vs ds self)) = length self \<and>
         (\<forall>j < length self. fst (clear_index_loop vs ds self) ! j =
            (if Inr j \<in> py_index (length self) ` set vs
             then (self ! j)\<lparr>elems := without_positions (elems (self ! j)) ds\<rparr>
             else self ! j))"
  using assms(3-5)
proof (induction vs arbitrary: self)
  case Nil
  then show ?case by simp
next
  case (Cons v vs)
  obtain k where k: "py_index (length self) v = Inr k"
    using Cons.prems(1) by (cases "py_index (length self) v") (auto dest: py_index_error)
  then have kb: "k < length self" by (rule py_index_bound)
  let ?d = "(self ! k)\<lparr>elems := without_positions (elems (self ! k)) ds\<rparr>"
  let ?s = "self[k := ?d]"
  have "\<forall>i \<in> set ds. 0 \<le> i \<and> i < int (length (elems (self ! k)))"
    using Cons.prems(3) k assms(2) by auto
  from delete_loop_descending[OF assms(1) k this]
  have del: "delete_loop v ds self = (?s, None)" .
  have notk: "Inr k \<notin> py_index (length self) ` set vs"
    using Cons.prems(2) k by auto
  have p1: "\<forall>v \<in> set vs. py_index (length ?s) v \<noteq> Inl IndexError"
    using Cons.prems(1) by simp
  have p2: "distinct (map (py_index (length ?s)) vs)"
    using Cons.prems(2) by simp
  have p3: "\<forall>v \<in> set vs. \<forall>j. py_index (length ?s) v = Inr j \<longrightarrow>
           (\<forall>i \<in> set ds. i < int (length (elems (?s ! j))))"
  proof (intro ballI allI impI)
    fix w j i assume w: "w \<in> set vs" and j: "py_index (length ?s) w = Inr j" and i: "i \<in> set ds"
    from w j notk have "j \<noteq> k" by force
    then show "i < int (length (elems (?s ! j)))"
      using Cons.prems(3) w j i by simp
  qed
  have step: "clear_index_loop (v # vs) ds self = clear_index_loop vs ds ?s"
    using k del by simp
  from Cons.IH[OF p1 p2 p3] show ?case
    unfolding step using k kb notk
    by (auto simp: nth_list_update)
qed

lemma without_positions_set: "set ix = set iy \<Longrightarrow> without_positions xs ix = without_positions xs iy"
  by (simp add: without_positions_def)

text \<open>
  C9, as the claim states it, fails on the code.  The indices are sorted by their value
  and deleted one after the other, each counted in the deque as the deletions before
  it left it.  A position given twice deletes two elements: \<open>index=[1, 1]\<close> on
  \<open>[10, 20, 30, 40]\<close> leaves \<open>[10, 40]\<close>, although position 2 was not given.  Negative
  positions are counted from the end of the deque as it is when their turn comes:
  \<open>index=[-1, -2]\<close>, the positions 3 and 2 of the state before the call, leaves
  \<open>[10, 30]\<close>; \<open>index=[0, -4]\<close>, twice the position 0, deletes the element at 0 and
  then raises \<open>IndexError\<close>.
\<close>

theorem History_clear_counterexample:
  "History_clear (Some [1, 1]) None [\<lparr>maxlen = Some 4, elems = [10, 20, 30, 40::int]\<rparr>] =
     ([\<lparr>maxlen = Some 4, elems = [10, 40]\<rparr>], None) \<and>
   without_positions [10, 20, 30, 40::int] [1, 1] = [10, 30, 40] \<and>
   History_clear (Some [-1, -2]) None [\<lparr>maxlen = Some 4, elems = [10, 20, 30, 40::int]\<rparr>] =
     ([\<lparr>maxlen = Some 4, elems = [10, 30]\<rparr>], None) \<and>
   py_index 4 (-1) = Inr 3 \<and> py_index 4 (-2) = Inr 2 \<and>
   History_clear (Some [0, -4]) None [\<lparr>maxlen = Some 4, elems = [10, 20, 30, 40::int]\<rparr>] =
     ([\<lparr>maxlen = Some 4, elems = [20, 30, 40]\<rparr>], Some IndexError)"
  by (simp add: History_clear_def selected_def History_variables_def py_index_def
      deque_delitem_def without_positions_def nths_Cons)

text \<open>
  C9, amended.  For positions that are distinct and not negative, and selected slots
  that are slots of the history (each selected once) and hold each of the positions:
  \<open>clear(index=ix, variables=vs)\<close> returns; each selected slot keeps exactly the elements
  that stood at none of the positions \<open>ix\<close>, counted before the call, in their order;
  the other slots are as they were.
\<close>

theorem History_clear_positions:
  assumes "distinct ix" and "\<forall>i \<in> set ix. 0 \<le> i"
    and "\<forall>v \<in> set (selected self variables). py_index (length self) v \<noteq> Inl IndexError"
    and "distinct (map (py_index (length self)) (selected self variables))"
    and "\<forall>v \<in> set (selected self variables). \<forall>j. py_index (length self) v = Inr j \<longrightarrow>
           (\<forall>i \<in> set ix. i < int (length (elems (self ! j))))"
  shows "snd (History_clear (Some ix) variables self) = None \<and>
         length (fst (History_clear (Some ix) variables self)) = length self \<and>
         (\<forall>j < length self. fst (History_clear (Some ix) variables self) ! j =
            (if Inr j \<in> py_index (length self) ` set (selected self variables)
             then (self ! j)\<lparr>elems := without_positions (elems (self ! j)) ix\<rparr>
             else self ! j))"
proof -
  let ?ds = "rev (sort ix)"
  have d: "sorted_wrt (>) ?ds" using assms(1) by (rule descending_sort)
  have n: "\<forall>i \<in> set ?ds. 0 \<le> i" using assms(2) by simp
  have r: "\<forall>v \<in> set (selected self variables). \<forall>j. py_index (length self) v = Inr j \<longrightarrow>
           (\<forall>i \<in> set ?ds. i < int (length (elems (self ! j))))"
    using assms(5) by simp
  have w: "\<And>xs. without_positions xs ?ds = without_positions xs ix"
    by (rule without_positions_set) simp
  from clear_index_loop_slots[OF d n assms(3,4) r] show ?thesis
    by (simp add: History_clear_def w)
qed

text \<open>
  The instance of the specification: \<open>clear(index=[0, 2])\<close> on a slot of length 4 leaves
  the elements that stood at positions 1 and 3.
\<close>

theorem History_clear_witness:
  "History_clear (Some [0, 2]) None [\<lparr>maxlen = Some 4, elems = [10, 20, 30, 40::int]\<rparr>] =
     ([\<lparr>maxlen = Some 4, elems = [20, 40]\<rparr>], None)"
proof -
  let ?h = "[\<lparr>maxlen = Some 4, elems = [10, 20, 30, 40::int]\<rparr>]"
  have s: "selected ?h None = [0]"
    by (simp add: selected_def History_variables_def)
  have p: "py_index (Suc 0) 0 = Inr 0" by (simp add: py_index_def)
  have a: "distinct [0, 2::int]" "\<forall>i \<in> set [0, 2::int]. 0 \<le> i"
    "\<forall>v \<in> set (selected ?h None). py_index (length ?h) v \<noteq> Inl IndexError"
    "distinct (map (py_index (length ?h)) (selected ?h None))"
    "\<forall>v \<in> set (selected ?h None). \<forall>j. py_index (length ?h) v = Inr j \<longrightarrow>
           (\<forall>i \<in> set [0, 2]. i < int (length (elems (?h ! j))))"
    unfolding s by (simp_all add: p)
  have w: "without_positions [10, 20, 30, 40::int] [0, 2] = [20, 40]"
    by (simp add: without_positions_def nths_Cons)
  from History_clear_positions[OF a]
  have "snd (History_clear (Some [0, 2]) None ?h) = None"
    "length (fst (History_clear (Some [0, 2]) None ?h)) = 1"
    "fst (History_clear (Some [0, 2]) None ?h) ! 0 = \<lparr>maxlen = Some 4, elems = [20, 40]\<rparr>"
    unfolding s by (simp_all add: p w)
  then show ?thesis
    by (cases "History_clear (Some [0, 2]) None ?h") (auto simp: length_Suc_conv)
qed

subsection \<open>History: capacity\<close>

text \<open>
  A history created with \<open>history=3, variables=2\<close> and appended to four times, all
  variables each time, holds in each slot the last three of the four values, oldest
  first.
\<close>

theorem History_keeps_last_three:
  "History_init (Some 3) 2 = Inr h \<Longrightarrow>
   fst (History_append [x4, y4] None (fst (History_append [x3, y3] None
     (fst (History_append [x2, y2] None (fst (History_append [x1, y1] None h))))))) =
   [\<lparr>maxlen = Some 3, elems = [x2, x3, x4]\<rparr>, \<lparr>maxlen = Some 3, elems = [y2, y3, y4]\<rparr>]"
  by (auto simp: History_init_def maxsize_def History_append_def selected_def
      History_variables_def numeral_2_eq_2 numeral_3_eq_3 deque_append_def py_index_def)


theorem History_keeps_last_three_witness:
  "History_init (Some 3) 2 =
     Inr [\<lparr>maxlen = Some 3, elems = []\<rparr>, \<lparr>maxlen = Some 3, elems = ([]::int list)\<rparr>] \<and>
   fst (History_append [4, 40] None (fst (History_append [3, 30] None
     (fst (History_append [2, 20] None (fst (History_append [1, 10] None
        [\<lparr>maxlen = Some 3, elems = []\<rparr>, \<lparr>maxlen = Some 3, elems = ([]::int list)\<rparr>]))))))) =
   [\<lparr>maxlen = Some 3, elems = [2, 3, 4]\<rparr>, \<lparr>maxlen = Some 3, elems = [20, 30, 40]\<rparr>]"
proof -
  have i: "History_init (Some 3) 2 =
     Inr [\<lparr>maxlen = Some 3, elems = []\<rparr>, \<lparr>maxlen = Some 3, elems = ([]::int list)\<rparr>]"
    by (simp add: History_init_def maxsize_def numeral_2_eq_2)
  from History_keeps_last_three[OF i, of 4 40 3 30 2 20 1 10] i show ?thesis by simp
qed

section \<open>Properties of sisl/\_plugs.py\<close>

subsection \<open>Attribute access\<close>

text \<open>
  While the object has no \<open>_plugs\<close>, evaluating \<open>self._plugs\<close> does not return:
  \<open>__getattribute__\<close> raises \<open>AttributeError\<close>, so \<open>__getattr__\<close> is called, which
  evaluates \<open>self._plugs\<close> again.  Whatever depth the interpreter allows, the result is
  \<open>RecursionError\<close>.
\<close>

lemma lookup_plugs_unset: "self ''_plugs'' = None \<Longrightarrow> lookup d self ''_plugs'' = Inl RecursionError"
  by (induction d) simp_all

declare lookup.simps [simp del]

lemma lookup_plugs_dict:
  "self ''_plugs'' = Some (Plugs ps) \<Longrightarrow> lookup (Suc d) self ''_plugs'' = Inr (Attr (Plugs ps))"
  by (simp add: lookup.simps)

text \<open>
  C6 fails on the code.  Construction runs \<open>self._plugs = dict()\<close>, which is a call of
  \<open>__setattr__\<close>, and that evaluates \<open>name in self._plugs\<close> before the object has a
  \<open>_plugs\<close>.  For an object of the bare class and for one of a class with a method,
  at every recursion limit \<open>__init__\<close> raises \<open>RecursionError\<close> and the object is left
  without \<open>_plugs\<close>.
\<close>

theorem PlugsMixin_init_RecursionError:
  "PlugsMixin_init d Map.empty = (Map.empty, Some RecursionError) \<and>
   PlugsMixin_init d [''tile'' \<mapsto> Callable ''tile''] =
     ([''tile'' \<mapsto> Callable ''tile''], Some RecursionError)"
proof (cases d)
  case 0
  then show ?thesis by simp
next
  case (Suc d')
  then show ?thesis
    by (cases d') (simp_all add: lookup_plugs_unset)
qed

text \<open>
  C7.  On a host object whose \<open>_plugs\<close> binds \<open>name\<close> to an attachment, assigning a
  value to \<open>name\<close> raises \<open>AttributeError\<close> (the ImmutableName condition), the object is
  left as it was, and \<open>name\<close> still gives the same attachment.  Two nested calls are all
  the assignment needs.
\<close>

theorem setattr_ImmutableName:
  assumes "self ''_plugs'' = Some (Plugs ps)" and "map_of ps name = Some p" and "2 \<le> d"
  shows "setattr d self name v = (self, Some AttributeError) \<and>
         getattr d (fst (setattr d self name v)) name = Inr (Attachment p)"
proof -
  from assms(3) obtain d' where d: "d = Suc (Suc d')"
    by (metis Suc_le_D numeral_2_eq_2 Suc_le_mono)
  have "name \<in> fst ` set ps" using assms(2) by (metis map_of_SomeD fst_conv image_eqI)
  then show ?thesis
    using assms(1,2) by (simp add: d lookup_plugs_dict)
qed

theorem setattr_ImmutableName_witness:
  "host_names ''_plugs'' =
     Some (Plugs [(''names'', \<lparr>pre_hooks = [''tile'' \<mapsto> ''h''], post_hooks = Map.empty\<rparr>)]) \<and>
   setattr 2 host_names ''names'' (Data (VInt 1)) = (host_names, Some AttributeError) \<and>
   getattr 2 host_names ''names'' =
     Inr (Attachment \<lparr>pre_hooks = [''tile'' \<mapsto> ''h''], post_hooks = Map.empty\<rparr>) \<and>
   snd (setattr 2 host_names ''other'' (Data (VInt 1))) = None"
proof -
  let ?p = "\<lparr>pre_hooks = [''tile'' \<mapsto> ''h''], post_hooks = Map.empty\<rparr>"
  have a: "host_names ''_plugs'' = Some (Plugs [(''names'', ?p)])"
    by (simp add: host_names_def)
  have b: "map_of [(''names'', ?p)] ''names'' = Some ?p" by simp
  have c: "(2::nat) \<le> 2" by simp
  have d: "snd (setattr 2 host_names ''other'' (Data (VInt 1))) = None"
    using lookup_plugs_dict[where self = host_names and d = 0, OF a]
    by (simp add: numeral_2_eq_2)
  from setattr_ImmutableName[where self = host_names and name = "''names''" and d = 2
      and v = "Data (VInt 1)", OF a b c]
  have e: "setattr 2 host_names ''names'' (Data (VInt 1)) = (host_names, Some AttributeError)"
    and f: "getattr 2 (fst (setattr 2 host_names ''names'' (Data (VInt 1)))) ''names'' =
      Inr (Attachment ?p)"
    by blast+
  have "getattr 2 host_names ''names'' = Inr (Attachment ?p)"
    using f unfolding e by (simp only: fst_conv)
  with a d e show ?thesis by blast
qed

text \<open>
  Access without hooks, on a host object that has its \<open>_plugs\<close>: an attribute that is
  not callable is returned as it is; so is a callable one when there is no attachment;
  a name that is no attribute gives the attachment of that name, and \<open>AttributeError\<close>
  when there is none.
\<close>

theorem lookup_unobserved:
  assumes "self ''_plugs'' = Some (Plugs ps)" and "2 \<le> d"
  shows "(self name = Some (Data v) \<longrightarrow> lookup d self name = Inr (Attr (Data v))) \<and>
         (self name = Some (Callable f) \<and> ps = [] \<longrightarrow> lookup d self name = Inr (Attr (Callable f))) \<and>
         (self name = None \<longrightarrow>
            lookup d self name =
              (case map_of ps name of None \<Rightarrow> Inl AttributeError | Some p \<Rightarrow> Inr (Attachment p)))"
proof -
  from assms(2) obtain d' where d: "d = Suc (Suc d')"
    by (metis Suc_le_D numeral_2_eq_2 Suc_le_mono)
  show ?thesis
    using assms(1) by (auto simp: d lookup.simps lookup_plugs_dict split: option.splits)
qed

theorem lookup_unobserved_witness:
  "lookup 2 (host_names(''_plugs'' \<mapsto> Plugs [])) ''tile'' = Inr (Attr (Callable ''tile'')) \<and>
   lookup 2 host_names ''absent'' = Inl AttributeError \<and>
   lookup 2 host_names ''names'' =
     Inr (Attachment \<lparr>pre_hooks = [''tile'' \<mapsto> ''h''], post_hooks = Map.empty\<rparr>) \<and>
   lookup 2 (host_names(''n'' \<mapsto> Data (VInt 4))) ''n'' = Inr (Attr (Data (VInt 4)))"
proof -
  let ?p = "\<lparr>pre_hooks = [''tile'' \<mapsto> ''h''], post_hooks = Map.empty\<rparr>"
  have a: "(host_names(''_plugs'' \<mapsto> Plugs [])) ''_plugs'' = Some (Plugs [])"
    and b: "host_names ''_plugs'' = Some (Plugs [(''names'', ?p)])"
    and c: "(host_names(''n'' \<mapsto> Data (VInt 4))) ''_plugs'' = Some (Plugs [(''names'', ?p)])"
    and e: "(2::nat) \<le> 2"
    by (simp_all add: host_names_def)
  have f: "(host_names(''_plugs'' \<mapsto> Plugs [])) ''tile'' = Some (Callable ''tile'')"
    "host_names ''absent'' = None" "host_names ''names'' = None"
    "(host_names(''n'' \<mapsto> Data (VInt 4))) ''n'' = Some (Data (VInt 4))"
    by (simp_all add: host_names_def)
  from lookup_unobserved[where self = "host_names(''_plugs'' \<mapsto> Plugs [])" and name = "''tile''"
      and f = "''tile''", OF a e]
    lookup_unobserved[where self = host_names and name = "''absent''", OF b e]
    lookup_unobserved[where self = host_names and name = "''names''", OF b e]
    lookup_unobserved[where self = "host_names(''n'' \<mapsto> Data (VInt 4))" and name = "''n''"
      and v = "VInt 4", OF c e]
  show ?thesis using f by simp
qed

text \<open>
  C1 fails on the code.  The host \<open>host_names\<close> holds one attachment, stored as \<open>names\<close>,
  whose pre-hook registry maps \<open>tile\<close> to \<open>h\<close>.  Accessing \<open>tile\<close> queries the registry
  under \<open>names\<close>, finds nothing and returns the method unwrapped; invoking it calls
  \<open>tile\<close> and never \<open>h\<close>.  The registries are queried under the attachment's own name:
  on \<open>host_tile\<close>, where the attachment is stored as \<open>tile\<close>, the hook is found, and it
  is attached to the method \<open>copy\<close> as well.
\<close>

theorem hook_for_member_not_found:
  "lookup (Suc (Suc d)) host_names ''tile'' = Inr (Attr (Callable ''tile'')) \<and>
   calls (fst (invoke E (Attr (Callable ''tile'')) s pos kw)) = calls s @ [Called ''tile'' pos kw] \<and>
   lookup (Suc (Suc d)) host_tile ''tile'' = Inr (Combi_hook ''tile'' [''h''] []) \<and>
   lookup (Suc (Suc d)) host_tile ''copy'' = Inr (Combi_hook ''copy'' [''h''] [])"
  by (simp add: host_names_def host_tile_def invoke_def call_logged_def lookup.simps
      split: prod.splits)

text \<open>
  C2 fails on the code, by the same lookup.  On \<open>host_AB\<close>, with the attachments \<open>A\<close>
  and \<open>B\<close> each registering a pre-hook and a post-hook for \<open>op\<close>, accessing \<open>op\<close> returns
  the method unwrapped, and invoking it runs \<open>op\<close> alone.
\<close>

theorem hooks_of_two_attachments_not_found:
  "lookup (Suc (Suc d)) host_AB ''op'' = Inr (Attr (Callable ''op'')) \<and>
   invoke (log_env []) (Attr (Callable ''op'')) start [VRef 0] [] =
     (\<lparr>heap = (\<lambda>r. [])(0 := [''op'']), calls = [Called ''op'' [VRef 0] []]\<rparr>, Inr (VRef 0))"
  by (simp add: host_AB_def invoke_def call_logged_def log_env_def start_def lookup.simps)

subsection \<open>combi\_hook\<close>

lemma call_logged_calls:
  "calls (fst (call_logged E f s pos kw)) = calls s @ [Called f pos kw]"
  by (simp add: call_logged_def split: prod.splits)

lemma call_logged_heap:
  "heap (fst (call_logged E f s pos kw)) = fst (call_of E f (heap s) pos kw)"
  by (simp add: call_logged_def split: prod.splits)

lemma call_logged_result:
  "snd (call_logged E f s pos kw) = snd (call_of E f (heap s) pos kw)"
  by (simp add: call_logged_def split: prod.splits)

lemma copy_logged_calls: "calls (fst (copy_logged E s obj)) = calls s @ [Copied obj]"
  by (simp add: copy_logged_def split: prod.splits)

lemma copy_logged_heap: "heap (fst (copy_logged E s obj)) = fst (copy_of E (heap s) obj)"
  by (simp add: copy_logged_def split: prod.splits)

lemma copy_logged_result: "snd (copy_logged E s obj) = snd (copy_of E (heap s) obj)"
  by (simp add: copy_logged_def split: prod.splits)

text \<open>The calls a loop over hooks makes: one per hook that ran, with the loop's arguments.\<close>

lemma run_hooks_calls:
  "\<exists>evs. calls (fst (run_hooks E fs args kw s obj)) = calls s @ evs \<and>
         (\<forall>ev \<in> set evs. \<exists>f w. ev = Called f (w # args) kw \<and> f \<in> set fs)"
proof (induction fs arbitrary: s obj)
  case Nil
  then show ?case by simp
next
  case (Cons f fs)
  obtain s' r where c: "call_logged E f s (obj # args) kw = (s', r)" by fastforce
  have s': "calls s' = calls s @ [Called f (obj # args) kw]"
    using call_logged_calls[of E f s "obj # args" kw] c by simp
  show ?case
  proof (cases r)
    case (Inl e)
    then show ?thesis using c s' by auto
  next
    case (Inr obj')
    from Cons.IH[of s' obj'] obtain evs where
      "calls (fst (run_hooks E fs args kw s' obj')) = calls s' @ evs"
      "\<forall>ev \<in> set evs. \<exists>f w. ev = Called f (w # args) kw \<and> f \<in> set fs" by blast
    then show ?thesis using c s' Inr
      by (intro exI[of _ "Called f (obj # args) kw # evs"]) auto
  qed
qed

text \<open>The object \<open>r\<close> is out of reach of a loop that starts on another working value.\<close>

lemma run_hooks_leaves:
  "\<forall>f \<in> set fs. leaves r (call_of E f) \<Longrightarrow> obj \<noteq> VRef r \<Longrightarrow>
   heap (fst (run_hooks E fs args kw s obj)) r = heap s r \<and>
   snd (run_hooks E fs args kw s obj) \<noteq> Inr (VRef r)"
proof (induction fs arbitrary: s obj)
  case Nil
  then show ?case by simp
next
  case (Cons f fs)
  obtain s' res where c: "call_logged E f s (obj # args) kw = (s', res)" by fastforce
  have l: "leaves r (call_of E f)" using Cons.prems(1) by simp
  have h: "heap s' r = heap s r" and nr: "res \<noteq> Inr (VRef r)"
    using l Cons.prems(2) c call_logged_heap[of E f s "obj # args" kw]
      call_logged_result[of E f s "obj # args" kw]
    by (auto simp: leaves_def)
  show ?case
  proof (cases res)
    case (Inl e)
    then show ?thesis using c h by simp
  next
    case (Inr obj')
    then have "obj' \<noteq> VRef r" using nr by simp
    with Cons.IH[of obj' s'] Cons.prems(1) show ?thesis using c h Inr by simp
  qed
qed

text \<open>Hooks that work in place hand the working value on unchanged.\<close>

lemma run_hooks_returns_given:
  "\<forall>f \<in> set fs. returns_given (call_of E f) \<Longrightarrow>
   snd (run_hooks E fs args kw s obj) = Inr v \<Longrightarrow> v = obj"
proof (induction fs arbitrary: s obj)
  case Nil
  then show ?case by simp
next
  case (Cons f fs)
  obtain s' res where c: "call_logged E f s (obj # args) kw = (s', res)" by fastforce
  show ?case
  proof (cases res)
    case (Inl e)
    then show ?thesis using c Cons.prems(2) by simp
  next
    case (Inr obj')
    have "returns_given (call_of E f)" using Cons.prems(1) by simp
    then have "obj' = obj"
      using c Inr call_logged_result[of E f s "obj # args" kw] by (auto simp: returns_given_def)
    moreover have "v = obj'" using Cons.IH[of s' obj'] Cons.prems c Inr by simp
    ultimately show ?thesis by simp
  qed
qed


text \<open>
  The calls of one run of \<open>combi_hook\<close>: the copy when \<open>inplace\<close> is false, then calls of
  hooks and of the wrapped attribute, each with the arguments of the outer call after
  the working value and with the keyword arguments as \<open>inplace_flag\<close> left them.
\<close>

lemma combi_hook_calls:
  assumes "inplace_flag E attr kwargs = Inr (inplace, kw')"
  shows "\<exists>evs. calls (fst (combi_hook E attr pre_funcs post_funcs s obj args kwargs)) =
            calls s @ (if inplace then [] else [Copied obj]) @ evs \<and>
          (\<forall>ev \<in> set evs. \<exists>f w. ev = Called f (w # args) kw' \<and>
             f \<in> set pre_funcs \<union> {attr} \<union> set post_funcs)"
proof -
  let ?c = "if inplace then [] else [Copied obj]"
  let ?P = "\<lambda>evs. \<forall>ev \<in> set evs. \<exists>f w. ev = Called f (w # args) kw' \<and>
             f \<in> set pre_funcs \<union> {attr} \<union> set post_funcs"
  obtain s1 r1 where c1: "(if \<not> inplace then copy_logged E s obj else (s, Inr obj)) = (s1, r1)"
    by fastforce
  have t1: "calls s1 = calls s @ ?c"
    using c1 copy_logged_calls[of E s obj] by (auto split: if_splits)
  show ?thesis
  proof (cases r1)
    case (Inl e)
    then show ?thesis using assms c1 t1 by (simp add: combi_hook_def)
  next
    case r1: (Inr obj1)
    obtain s2 r2 where c2: "run_hooks E pre_funcs args kw' s1 obj1 = (s2, r2)" by fastforce
    from run_hooks_calls[of E pre_funcs args kw' s1 obj1] c2 obtain ev2 where
      t2: "calls s2 = calls s1 @ ev2"
      and q2: "\<forall>ev \<in> set ev2. \<exists>f w. ev = Called f (w # args) kw' \<and> f \<in> set pre_funcs"
      by auto
    have p2: "?P ev2" using q2 by blast
    show ?thesis
    proof (cases r2)
      case (Inl e)
      then show ?thesis using assms c1 r1 c2 t1 t2 p2 by (auto simp: combi_hook_def)
    next
      case r2: (Inr obj2)
      obtain s3 r3 where c3: "call_logged E attr s2 (obj2 # args) kw' = (s3, r3)" by fastforce
      have t3: "calls s3 = calls s2 @ [Called attr (obj2 # args) kw']"
        using call_logged_calls[of E attr s2 "obj2 # args" kw'] c3 by simp
      show ?thesis
      proof (cases r3)
        case (Inl e)
        have "?P (ev2 @ [Called attr (obj2 # args) kw'])" using p2 by auto
        moreover have "calls (fst (combi_hook E attr pre_funcs post_funcs s obj args kwargs)) =
            calls s @ ?c @ (ev2 @ [Called attr (obj2 # args) kw'])"
          using assms c1 r1 c2 r2 c3 Inl t1 t2 t3 by (simp add: combi_hook_def)
        ultimately show ?thesis by blast
      next
        case r3: (Inr obj3)
        from run_hooks_calls[of E "rev post_funcs" args kw' s3 obj3] obtain ev4 where
          t4: "calls (fst (run_hooks E (rev post_funcs) args kw' s3 obj3)) = calls s3 @ ev4"
          and p4: "\<forall>ev \<in> set ev4. \<exists>f w. ev = Called f (w # args) kw' \<and> f \<in> set (rev post_funcs)"
          by blast
        have "?P (ev2 @ [Called attr (obj2 # args) kw'] @ ev4)" using p2 p4 by auto
        moreover have "calls (fst (combi_hook E attr pre_funcs post_funcs s obj args kwargs)) =
            calls s @ ?c @ (ev2 @ [Called attr (obj2 # args) kw'] @ ev4)"
          using assms c1 r1 c2 r2 c3 r3 t1 t2 t3 t4 by (simp add: combi_hook_def)
        ultimately show ?thesis by blast
      qed
    qed
  qed
qed

text \<open>
  When \<open>inplace\<close> is false, the object behind the receiver is out of reach of the whole
  run, whether it returns or raises.
\<close>

lemma combi_hook_copy_frame:
  assumes flag: "inplace_flag E attr kwargs = Inr (False, kw')"
    and cp: "independent_copy E r"
    and lv: "\<forall>f \<in> set pre_funcs \<union> set post_funcs \<union> {attr}. leaves r (call_of E f)"
  shows "heap (fst (combi_hook E attr pre_funcs post_funcs s (VRef r) args kwargs)) r = heap s r"
proof -
  obtain s1 r1 where c1: "copy_logged E s (VRef r) = (s1, r1)" by fastforce
  have h1: "heap s1 r = heap s r" and n1: "r1 \<noteq> Inr (VRef r)"
    using cp c1 copy_logged_heap[of E s "VRef r"] copy_logged_result[of E s "VRef r"]
    by (auto simp: independent_copy_def)
  show ?thesis
  proof (cases r1)
    case (Inl e)
    then show ?thesis using flag c1 h1 by (simp add: combi_hook_def)
  next
    case r1: (Inr obj1)
    then have o1: "obj1 \<noteq> VRef r" using n1 by simp
    obtain s2 r2 where c2: "run_hooks E pre_funcs args kw' s1 obj1 = (s2, r2)" by fastforce
    have "\<forall>f \<in> set pre_funcs. leaves r (call_of E f)" using lv by simp
    from run_hooks_leaves[OF this o1, of args kw' s1]
    have h2: "heap s2 r = heap s1 r" and n2: "r2 \<noteq> Inr (VRef r)" using c2 by simp_all
    show ?thesis
    proof (cases r2)
      case (Inl e)
      then show ?thesis using flag c1 r1 c2 h1 h2 by (simp add: combi_hook_def)
    next
      case r2: (Inr obj2)
      then have o2: "obj2 \<noteq> VRef r" using n2 by simp
      obtain s3 r3 where c3: "call_logged E attr s2 (obj2 # args) kw' = (s3, r3)" by fastforce
      have "leaves r (call_of E attr)" using lv by simp
      then have h3: "heap s3 r = heap s2 r" and n3: "r3 \<noteq> Inr (VRef r)"
        using o2 c3 call_logged_heap[of E attr s2 "obj2 # args" kw']
          call_logged_result[of E attr s2 "obj2 # args" kw']
        by (auto simp: leaves_def)
      show ?thesis
      proof (cases r3)
        case (Inl e)
        then show ?thesis using flag c1 r1 c2 r2 c3 h1 h2 h3 by (simp add: combi_hook_def)
      next
        case r3: (Inr obj3)
        then have o3: "obj3 \<noteq> VRef r" using n3 by simp
        have "\<forall>f \<in> set (rev post_funcs). leaves r (call_of E f)" using lv by simp
        from run_hooks_leaves[OF this o3, of args kw' s3]
        have "heap (fst (run_hooks E (rev post_funcs) args kw' s3 obj3)) r = heap s3 r" by simp
        then show ?thesis using flag c1 r1 c2 r2 c3 r3 h1 h2 h3 by (simp add: combi_hook_def)
      qed
    qed
  qed
qed

lemma new_calls_append: "calls s' = calls s @ evs \<Longrightarrow> new_calls s s' = evs"
  by (simp add: new_calls_def)


lemma inplace_flag_off:
  assumes "(map_of kwargs ''inplace'' = None \<and>
            getfullargspec E attr = Inr (spec_args, spec_kwonlyargs) \<and>
            ''inplace'' \<notin> set spec_args \<and> ''inplace'' \<notin> set spec_kwonlyargs) \<or>
           map_of kwargs ''inplace'' = Some (VBool False)"
  shows "inplace_flag E attr kwargs = Inr (False, kwargs)"
  using assms by (auto simp: inplace_flag_def)

lemma inplace_flag_explicit:
  "map_of kwargs ''inplace'' = Some v \<Longrightarrow> inplace_flag E attr kwargs = Inr (truthy v, kwargs)"
  by (simp add: inplace_flag_def)

lemma inplace_flag_synthesized:
  "map_of kwargs ''inplace'' = None \<Longrightarrow> declares_inplace E attr \<Longrightarrow>
   inplace_flag E attr kwargs = Inr (False, kwargs @ [(''inplace'', VBool True)])"
  by (auto simp: inplace_flag_def declares_inplace_def split: sum.splits)

lemma log_env_leaves: "leaves r (call_of (log_env ds) f)"
  by (auto simp: leaves_def log_env_def split: list.splits pyval.splits)

lemma log_env_independent_copy: "independent_copy (log_env ds) r"
  by (simp add: independent_copy_def log_env_def)

lemma log_env_returns_given: "returns_given (call_of (log_env ds) f)"
  by (auto simp: returns_given_def log_env_def split: list.splits pyval.splits)

lemmas eval_combi = combi_hook_def inplace_flag_def log_env_def call_logged_def copy_logged_def
  start_def new_calls_def
lemma log_env_succeeds: "succeeds_in_place (call_of (log_env ds) f)"
  by (auto simp: succeeds_in_place_def log_env_def split: pyval.splits)

text \<open>
  C3.  When the in-place flag is off (the caller gave no \<open>inplace\<close> and the wrapped
  attribute declares none, or the caller passed \<open>inplace=False\<close>), the first thing the
  call does is \<open>obj.copy()\<close>, and the object behind the receiver is after the call what
  it was before, whether the call returns or raises.  This is for a \<open>copy\<close> that leaves
  the receiver alone and returns another object, and for hooks and a wrapped attribute
  that touch only the working value they are given.
\<close>

theorem combi_hook_not_inplace_receiver_unchanged:
  assumes "(map_of kwargs ''inplace'' = None \<and>
            getfullargspec E attr = Inr (spec_args, spec_kwonlyargs) \<and>
            ''inplace'' \<notin> set spec_args \<and> ''inplace'' \<notin> set spec_kwonlyargs) \<or>
           map_of kwargs ''inplace'' = Some (VBool False)"
    and "independent_copy E r"
    and "\<forall>f \<in> set pre_funcs \<union> set post_funcs \<union> {attr}. leaves r (call_of E f)"
  shows "heap (fst (combi_hook E attr pre_funcs post_funcs s (VRef r) args kwargs)) r = heap s r \<and>
         (\<exists>evs. new_calls s (fst (combi_hook E attr pre_funcs post_funcs s (VRef r) args kwargs)) =
            Copied (VRef r) # evs)"
proof -
  have flag: "inplace_flag E attr kwargs = Inr (False, kwargs)"
    using assms(1) by (rule inplace_flag_off)
  from combi_hook_calls[OF flag, of pre_funcs post_funcs s "VRef r" args] obtain evs where
    "calls (fst (combi_hook E attr pre_funcs post_funcs s (VRef r) args kwargs)) =
       calls s @ (Copied (VRef r) # evs)" by auto
  then have "new_calls s (fst (combi_hook E attr pre_funcs post_funcs s (VRef r) args kwargs)) =
       Copied (VRef r) # evs" by (rule new_calls_append)
  with combi_hook_copy_frame[OF flag assms(2,3)] show ?thesis by blast
qed

theorem combi_hook_not_inplace_witness:
  "heap (fst (combi_hook (log_env []) ''tile'' [''h''] [''g''] start (VRef 0) [VInt 2] [])) 0 = [] \<and>
   heap (fst (combi_hook (log_env []) ''tile'' [''h''] [''g''] start (VRef 0) [VInt 2] [])) 1 =
     [''h'', ''tile'', ''g''] \<and>
   snd (combi_hook (log_env []) ''tile'' [''h''] [''g''] start (VRef 0) [VInt 2] []) = Inr (VRef 1) \<and>
   heap (fst (combi_hook (log_env [''tile'']) ''tile'' [''h''] [''g''] start (VRef 0) [VInt 2]
     [(''inplace'', VBool False)])) 0 = []"
proof -
  have a: "(map_of [] ''inplace'' = None \<and>
            getfullargspec (log_env []) ''tile'' = Inr ([''self''], []) \<and>
            ''inplace'' \<notin> set [''self''] \<and> ''inplace'' \<notin> set []) \<or>
           map_of [] ''inplace'' = Some (VBool False)"
    by (simp add: log_env_def)
  have b: "(map_of [(''inplace'', VBool False)] ''inplace'' = None \<and>
            getfullargspec (log_env [''tile'']) ''tile'' = Inr ([''self'', ''inplace''], []) \<and>
            ''inplace'' \<notin> set [''self'', ''inplace''] \<and> ''inplace'' \<notin> set []) \<or>
           map_of [(''inplace'', VBool False)] ''inplace'' = Some (VBool False)"
    by simp
  have l: "\<And>ds. \<forall>f \<in> set [''h''] \<union> set [''g''] \<union> {''tile''}. leaves 0 (call_of (log_env ds) f)"
    by (simp add: log_env_leaves)
  have h: "heap start 0 = []" by (simp add: start_def)
  from combi_hook_not_inplace_receiver_unchanged[OF a log_env_independent_copy l, of start "[VInt 2]"]
    combi_hook_not_inplace_receiver_unchanged[OF b log_env_independent_copy l, of start "[VInt 2]"]
  have "heap (fst (combi_hook (log_env []) ''tile'' [''h''] [''g''] start (VRef 0) [VInt 2] [])) 0 = []"
    "heap (fst (combi_hook (log_env [''tile'']) ''tile'' [''h''] [''g''] start (VRef 0) [VInt 2]
       [(''inplace'', VBool False)])) 0 = []"
    by (simp_all add: h)
  moreover have
    "heap (fst (combi_hook (log_env []) ''tile'' [''h''] [''g''] start (VRef 0) [VInt 2] [])) 1 =
       [''h'', ''tile'', ''g'']"
    "snd (combi_hook (log_env []) ''tile'' [''h''] [''g''] start (VRef 0) [VInt 2] []) = Inr (VRef 1)"
    by (simp_all add: eval_combi)
  ultimately show ?thesis by simp
qed

text \<open>
  C4, as the claim states it, fails on the code.  When the wrapped attribute declares
  \<open>inplace\<close> and the caller omits it, \<open>inplace=True\<close> is stored in the keyword arguments
  but the local \<open>inplace\<close> stays false: the receiver is copied, the hook and the
  attribute run on the copy, the copy is returned, and the receiver is as before.
\<close>

theorem combi_hook_inplace_counterexample:
  "map_of [] ''inplace'' = None \<and> declares_inplace (log_env [''tile'']) ''tile'' \<and>
   calls (fst (combi_hook (log_env [''tile'']) ''tile'' [''h''] [] start (VRef 0) [] [])) =
     [Copied (VRef 0),
      Called ''h'' [VRef 1] [(''inplace'', VBool True)],
      Called ''tile'' [VRef 1] [(''inplace'', VBool True)]] \<and>
   snd (combi_hook (log_env [''tile'']) ''tile'' [''h''] [] start (VRef 0) [] []) = Inr (VRef 1) \<and>
   heap (fst (combi_hook (log_env [''tile'']) ''tile'' [''h''] [] start (VRef 0) [] [])) 1 =
     [''h'', ''tile''] \<and>
   heap (fst (combi_hook (log_env [''tile'']) ''tile'' [''h''] [] start (VRef 0) [] [])) 0 = []"
  by (simp add: eval_combi declares_inplace_def)

lemma run_hooks_append:
  "run_hooks E (fs @ gs) args kw s obj =
     (case run_hooks E fs args kw s obj of
        (s', Inl e) \<Rightarrow> (s', Inl e)
      | (s', Inr obj') \<Rightarrow> run_hooks E gs args kw s' obj')"
  by (induction fs arbitrary: s obj) (auto split: prod.splits sum.splits)

lemma run_hooks_single:
  "run_hooks E [f] args kw s obj = call_logged E f s (obj # args) kw"
  by (auto split: prod.splits sum.splits)

lemma combi_hook_run:
  "inplace_flag E attr kwargs = Inr (inplace, kw') \<Longrightarrow>
   combi_hook E attr pre_funcs post_funcs s obj args kwargs =
     (case (if \<not> inplace then copy_logged E s obj else (s, Inr obj)) of
        (s1, Inl e) \<Rightarrow> (s1, Inl e)
      | (s1, Inr obj1) \<Rightarrow> run_hooks E (pre_funcs @ [attr] @ rev post_funcs) args kw' s1 obj1)"
  by (auto simp: combi_hook_def run_hooks_append split: prod.splits sum.splits)

lemma run_hooks_first:
  "fs \<noteq> [] \<Longrightarrow>
   \<exists>evs. calls (fst (run_hooks E fs args kw s obj)) =
            calls s @ Called (hd fs) (obj # args) kw # evs \<and>
          (\<forall>ev \<in> set evs. \<exists>f w. ev = Called f (w # args) kw)"
proof (cases fs)
  case Nil
  then show "fs \<noteq> [] \<Longrightarrow> ?thesis" by simp
next
  case (Cons f fs')
  obtain s' r where c: "call_logged E f s (obj # args) kw = (s', r)" by fastforce
  have s': "calls s' = calls s @ [Called f (obj # args) kw]"
    using call_logged_calls[of E f s "obj # args" kw] c by simp
  show ?thesis
  proof (cases r)
    case (Inl e)
    then show ?thesis using Cons c s' by simp
  next
    case (Inr obj')
    from run_hooks_calls[of E fs' args kw s' obj'] obtain evs where
      "calls (fst (run_hooks E fs' args kw s' obj')) = calls s' @ evs"
      "\<forall>ev \<in> set evs. \<exists>f w. ev = Called f (w # args) kw \<and> f \<in> set fs'" by blast
    then show ?thesis using Cons c s' Inr by auto
  qed
qed

lemma run_hooks_runs_on:
  "\<forall>f \<in> set fs. returns_given (call_of E f) \<Longrightarrow>
   \<exists>evs. calls (fst (run_hooks E fs args kw s obj)) = calls s @ evs \<and>
         runs_on E fs obj args kw evs (snd (run_hooks E fs args kw s obj))"
proof (induction fs arbitrary: s)
  case Nil
  then show ?case by (simp add: runs_on_def calls_on_def)
next
  case (Cons f fs)
  obtain s' r where c: "call_logged E f s (obj # args) kw = (s', r)" by fastforce
  have s': "calls s' = calls s @ [Called f (obj # args) kw]"
    using call_logged_calls[of E f s "obj # args" kw] c by simp
  have r: "r = snd (call_of E f (heap s) (obj # args) kw)"
    using call_logged_result[of E f s "obj # args" kw] c by simp
  show ?case
  proof (cases r)
    case (Inl e)
    have re: "snd (call_of E f (heap s) (obj # args) kw) = Inl e" using r Inl by simp
    have "\<exists>n. n < length (f # fs) \<and>
        [Called f (obj # args) kw] = calls_on obj args kw (take (Suc n) (f # fs)) \<and>
        (\<exists>h. snd (call_of E ((f # fs) ! n) h (obj # args) kw) = Inl e)"
      using re by (intro exI[of _ 0]) (auto simp: calls_on_def)
    then have "runs_on E (f # fs) obj args kw [Called f (obj # args) kw] (Inl e)"
      by (simp add: runs_on_def)
    then show ?thesis using c s' Inl by simp
  next
    case (Inr obj')
    have "returns_given (call_of E f)" using Cons.prems by simp
    then have o: "obj' = obj" using r Inr by (auto simp: returns_given_def)
    have "\<forall>f \<in> set fs. returns_given (call_of E f)" using Cons.prems by simp
    from Cons.IH[OF this, of s'] obtain evs where
      e: "calls (fst (run_hooks E fs args kw s' obj)) = calls s' @ evs"
      and ro: "runs_on E fs obj args kw evs (snd (run_hooks E fs args kw s' obj))" by blast
    have "runs_on E (f # fs) obj args kw (Called f (obj # args) kw # evs)
        (snd (run_hooks E fs args kw s' obj))"
    proof (cases "snd (run_hooks E fs args kw s' obj)")
      case (Inl e')
      with ro obtain n h where n: "n < length fs"
        "evs = calls_on obj args kw (take (Suc n) fs)"
        "snd (call_of E (fs ! n) h (obj # args) kw) = Inl e'"
        by (auto simp: runs_on_def)
      have "\<exists>m. m < length (f # fs) \<and>
          Called f (obj # args) kw # evs = calls_on obj args kw (take (Suc m) (f # fs)) \<and>
          (\<exists>h. snd (call_of E ((f # fs) ! m) h (obj # args) kw) = Inl e')"
        using n by (intro exI[of _ "Suc n"]) (auto simp: calls_on_def)
      then show ?thesis by (simp add: runs_on_def Inl)
    next
      case (Inr v)
      with ro show ?thesis by (auto simp: runs_on_def calls_on_def)
    qed
    then show ?thesis using c s' Inr o e by auto
  qed
qed

lemma combi_hook_inplace_run:
  assumes "inplace_flag E attr kwargs = Inr (True, kw')"
  shows "(\<exists>evs. new_calls s (fst (combi_hook E attr pre_funcs post_funcs s obj args kwargs)) =
             Called (hd (pre_funcs @ [attr])) (obj # args) kw' # evs \<and>
           (\<forall>ev \<in> set evs. \<exists>f w. ev = Called f (w # args) kw')) \<and>
         ((\<forall>f \<in> set pre_funcs \<union> set post_funcs \<union> {attr}. returns_given (call_of E f)) \<longrightarrow>
            runs_on E (pre_funcs @ [attr] @ rev post_funcs) obj args kw'
              (new_calls s (fst (combi_hook E attr pre_funcs post_funcs s obj args kwargs)))
              (snd (combi_hook E attr pre_funcs post_funcs s obj args kwargs)))"
proof -
  let ?fs = "pre_funcs @ [attr] @ rev post_funcs"
  have run: "combi_hook E attr pre_funcs post_funcs s obj args kwargs =
      run_hooks E ?fs args kw' s obj"
    using combi_hook_run[OF assms] by simp
  have hd: "hd ?fs = hd (pre_funcs @ [attr])" by (cases pre_funcs) simp_all
  have ne: "?fs \<noteq> []" by simp
  from run_hooks_first[OF ne, of E args kw' s obj] obtain evs where
    e: "calls (fst (run_hooks E ?fs args kw' s obj)) =
          calls s @ Called (hd ?fs) (obj # args) kw' # evs"
    and a: "\<forall>ev \<in> set evs. \<exists>f w. ev = Called f (w # args) kw'" by blast
  from e have "new_calls s (fst (run_hooks E ?fs args kw' s obj)) =
      Called (hd (pre_funcs @ [attr])) (obj # args) kw' # evs"
    unfolding hd by (rule new_calls_append)
  with a have 1: "\<exists>evs. new_calls s (fst (run_hooks E ?fs args kw' s obj)) =
             Called (hd (pre_funcs @ [attr])) (obj # args) kw' # evs \<and>
           (\<forall>ev \<in> set evs. \<exists>f w. ev = Called f (w # args) kw')" by blast
  have 2: "runs_on E ?fs obj args kw' (new_calls s (fst (run_hooks E ?fs args kw' s obj)))
      (snd (run_hooks E ?fs args kw' s obj))"
    if rg: "\<forall>f \<in> set pre_funcs \<union> set post_funcs \<union> {attr}. returns_given (call_of E f)"
  proof -
    have "\<forall>f \<in> set ?fs. returns_given (call_of E f)" using rg by auto
    from run_hooks_runs_on[OF this, of args kw' s obj] obtain evs where
      e: "calls (fst (run_hooks E ?fs args kw' s obj)) = calls s @ evs"
      and r: "runs_on E ?fs obj args kw' evs (snd (run_hooks E ?fs args kw' s obj))" by blast
    from e have "new_calls s (fst (run_hooks E ?fs args kw' s obj)) = evs"
      by (rule new_calls_append)
    with r show ?thesis by simp
  qed
  from 1 2 show ?thesis unfolding run by blast
qed

lemma combi_hook_copy_run:
  assumes "inplace_flag E attr kwargs = Inr (False, kw')"
  shows "case snd (copy_of E (heap s) obj) of
           Inl e \<Rightarrow>
             new_calls s (fst (combi_hook E attr pre_funcs post_funcs s obj args kwargs)) =
               [Copied obj] \<and>
             snd (combi_hook E attr pre_funcs post_funcs s obj args kwargs) = Inl e
         | Inr c \<Rightarrow>
             (\<exists>evs. new_calls s (fst (combi_hook E attr pre_funcs post_funcs s obj args kwargs)) =
                 Copied obj # Called (hd (pre_funcs @ [attr])) (c # args) kw' # evs \<and>
               (\<forall>ev \<in> set evs. \<exists>f w. ev = Called f (w # args) kw')) \<and>
             ((\<forall>f \<in> set pre_funcs \<union> set post_funcs \<union> {attr}. returns_given (call_of E f)) \<longrightarrow>
                (\<exists>evs. new_calls s (fst (combi_hook E attr pre_funcs post_funcs s obj args kwargs)) =
                    Copied obj # evs \<and>
                  runs_on E (pre_funcs @ [attr] @ rev post_funcs) c args kw' evs
                    (snd (combi_hook E attr pre_funcs post_funcs s obj args kwargs))))"
proof -
  let ?fs = "pre_funcs @ [attr] @ rev post_funcs"
  obtain s1 r1 where c1: "copy_logged E s obj = (s1, r1)" by fastforce
  have t1: "calls s1 = calls s @ [Copied obj]"
    using c1 copy_logged_calls[of E s obj] by simp
  have r1: "snd (copy_of E (heap s) obj) = r1"
    using c1 copy_logged_result[of E s obj] by simp
  have hd: "hd ?fs = hd (pre_funcs @ [attr])" by (cases pre_funcs) simp_all
  show ?thesis
  proof (cases r1)
    case (Inl e)
    have "combi_hook E attr pre_funcs post_funcs s obj args kwargs = (s1, Inl e)"
      using combi_hook_run[OF assms] c1 Inl by simp
    then show ?thesis unfolding r1 using Inl t1 by (simp add: new_calls_def)
  next
    case (Inr c)
    have run: "combi_hook E attr pre_funcs post_funcs s obj args kwargs =
        run_hooks E ?fs args kw' s1 c"
      using combi_hook_run[OF assms] c1 Inr by simp
    have ne: "?fs \<noteq> []" by simp
    from run_hooks_first[OF ne, of E args kw' s1 c] obtain evs where
      e: "calls (fst (run_hooks E ?fs args kw' s1 c)) =
         calls s1 @ Called (hd ?fs) (c # args) kw' # evs"
      and a: "\<forall>ev \<in> set evs. \<exists>f w. ev = Called f (w # args) kw'" by blast
    from e have "calls (fst (run_hooks E ?fs args kw' s1 c)) =
        calls s @ (Copied obj # Called (hd (pre_funcs @ [attr])) (c # args) kw' # evs)"
      unfolding hd t1 by simp
    then have "new_calls s (fst (run_hooks E ?fs args kw' s1 c)) =
        Copied obj # Called (hd (pre_funcs @ [attr])) (c # args) kw' # evs"
      by (rule new_calls_append)
    with a have 1: "\<exists>evs. new_calls s (fst (run_hooks E ?fs args kw' s1 c)) =
                 Copied obj # Called (hd (pre_funcs @ [attr])) (c # args) kw' # evs \<and>
               (\<forall>ev \<in> set evs. \<exists>f w. ev = Called f (w # args) kw')" by blast
    have 2: "\<exists>evs. new_calls s (fst (run_hooks E ?fs args kw' s1 c)) = Copied obj # evs \<and>
          runs_on E ?fs c args kw' evs (snd (run_hooks E ?fs args kw' s1 c))"
      if rg: "\<forall>f \<in> set pre_funcs \<union> set post_funcs \<union> {attr}. returns_given (call_of E f)"
    proof -
      have "\<forall>f \<in> set ?fs. returns_given (call_of E f)" using rg by auto
      from run_hooks_runs_on[OF this, of args kw' s1 c] obtain evs where
        e: "calls (fst (run_hooks E ?fs args kw' s1 c)) = calls s1 @ evs"
        and r: "runs_on E ?fs c args kw' evs (snd (run_hooks E ?fs args kw' s1 c))" by blast
      from e have "calls (fst (run_hooks E ?fs args kw' s1 c)) = calls s @ (Copied obj # evs)"
        unfolding t1 by simp
      then have "new_calls s (fst (run_hooks E ?fs args kw' s1 c)) = Copied obj # evs"
        by (rule new_calls_append)
      with r show ?thesis by blast
    qed
    from 1 2 show ?thesis unfolding r1 run Inr by simp
  qed
qed

text \<open>
  C4, amended.  When the caller passes a true \<open>inplace\<close>, no copy is made: the first
  callable of the run (the first pre-hook, or the wrapped attribute when there is no
  pre-hook) is called on the receiver itself, with the caller's arguments.  When each
  hook and the wrapped attribute returns the object it is given, all of them are called
  on the receiver itself, pre-hooks in order, then the attribute, then the post-hooks
  in reverse, up to the first that raises; and a call that returns returns the
  receiver itself, which so reflects the same state as the returned value.  When the
  caller omits \<open>inplace\<close> and the wrapped attribute declares it, the receiver is copied
  first; if \<open>copy\<close> raises, nothing else is called; otherwise the same holds with the
  copy in the place of the receiver and \<open>inplace=True\<close> added to the keyword arguments,
  and a call that returns returns the copy.
\<close>

theorem combi_hook_explicit_inplace:
  "(map_of kwargs ''inplace'' = Some v \<and> truthy v \<longrightarrow>
      (\<exists>evs. new_calls s (fst (combi_hook E attr pre_funcs post_funcs s obj args kwargs)) =
           Called (hd (pre_funcs @ [attr])) (obj # args) kwargs # evs \<and>
         (\<forall>ev \<in> set evs. \<exists>f w. ev = Called f (w # args) kwargs)) \<and>
      ((\<forall>f \<in> set pre_funcs \<union> set post_funcs \<union> {attr}. returns_given (call_of E f)) \<longrightarrow>
         runs_on E (pre_funcs @ [attr] @ rev post_funcs) obj args kwargs
           (new_calls s (fst (combi_hook E attr pre_funcs post_funcs s obj args kwargs)))
           (snd (combi_hook E attr pre_funcs post_funcs s obj args kwargs)))) \<and>
   (map_of kwargs ''inplace'' = None \<and> declares_inplace E attr \<longrightarrow>
      (case snd (copy_of E (heap s) obj) of
         Inl e \<Rightarrow>
           new_calls s (fst (combi_hook E attr pre_funcs post_funcs s obj args kwargs)) =
             [Copied obj] \<and>
           snd (combi_hook E attr pre_funcs post_funcs s obj args kwargs) = Inl e
       | Inr c \<Rightarrow>
           (\<exists>evs. new_calls s (fst (combi_hook E attr pre_funcs post_funcs s obj args kwargs)) =
               Copied obj # Called (hd (pre_funcs @ [attr])) (c # args)
                 (kwargs @ [(''inplace'', VBool True)]) # evs \<and>
             (\<forall>ev \<in> set evs. \<exists>f w. ev = Called f (w # args) (kwargs @ [(''inplace'', VBool True)]))) \<and>
           ((\<forall>f \<in> set pre_funcs \<union> set post_funcs \<union> {attr}. returns_given (call_of E f)) \<longrightarrow>
              (\<exists>evs. new_calls s (fst (combi_hook E attr pre_funcs post_funcs s obj args kwargs)) =
                  Copied obj # evs \<and>
                runs_on E (pre_funcs @ [attr] @ rev post_funcs) c args
                  (kwargs @ [(''inplace'', VBool True)]) evs
                  (snd (combi_hook E attr pre_funcs post_funcs s obj args kwargs))))))"
proof (intro conjI impI)
  assume a: "map_of kwargs ''inplace'' = Some v \<and> truthy v"
  then have flag: "inplace_flag E attr kwargs = Inr (True, kwargs)"
    using inplace_flag_explicit[of kwargs v E attr] by simp
  note r = combi_hook_inplace_run[OF flag, where s = s and obj = obj and args = args
      and pre_funcs = pre_funcs and post_funcs = post_funcs]
  from r show "\<exists>evs. new_calls s (fst (combi_hook E attr pre_funcs post_funcs s obj args kwargs)) =
           Called (hd (pre_funcs @ [attr])) (obj # args) kwargs # evs \<and>
         (\<forall>ev \<in> set evs. \<exists>f w. ev = Called f (w # args) kwargs)" by (rule conjunct1)
  show "runs_on E (pre_funcs @ [attr] @ rev post_funcs) obj args kwargs
           (new_calls s (fst (combi_hook E attr pre_funcs post_funcs s obj args kwargs)))
           (snd (combi_hook E attr pre_funcs post_funcs s obj args kwargs))"
    if "\<forall>f \<in> set pre_funcs \<union> set post_funcs \<union> {attr}. returns_given (call_of E f)"
    using r that by (elim conjE impE)
next
  assume a: "map_of kwargs ''inplace'' = None \<and> declares_inplace E attr"
  then have flag: "inplace_flag E attr kwargs = Inr (False, kwargs @ [(''inplace'', VBool True)])"
    by (simp add: inplace_flag_synthesized)
  show "case snd (copy_of E (heap s) obj) of
         Inl e \<Rightarrow>
           new_calls s (fst (combi_hook E attr pre_funcs post_funcs s obj args kwargs)) =
             [Copied obj] \<and>
           snd (combi_hook E attr pre_funcs post_funcs s obj args kwargs) = Inl e
       | Inr c \<Rightarrow>
           (\<exists>evs. new_calls s (fst (combi_hook E attr pre_funcs post_funcs s obj args kwargs)) =
               Copied obj # Called (hd (pre_funcs @ [attr])) (c # args)
                 (kwargs @ [(''inplace'', VBool True)]) # evs \<and>
             (\<forall>ev \<in> set evs. \<exists>f w. ev = Called f (w # args) (kwargs @ [(''inplace'', VBool True)]))) \<and>
           ((\<forall>f \<in> set pre_funcs \<union> set post_funcs \<union> {attr}. returns_given (call_of E f)) \<longrightarrow>
              (\<exists>evs. new_calls s (fst (combi_hook E attr pre_funcs post_funcs s obj args kwargs)) =
                  Copied obj # evs \<and>
                runs_on E (pre_funcs @ [attr] @ rev post_funcs) c args
                  (kwargs @ [(''inplace'', VBool True)]) evs
                  (snd (combi_hook E attr pre_funcs post_funcs s obj args kwargs))))"
    by (rule combi_hook_copy_run[OF flag])
qed

theorem combi_hook_explicit_inplace_witness:
  "map_of [(''inplace'', VBool True)] ''inplace'' = Some (VBool True) \<and> truthy (VBool True) \<and>
   snd (combi_hook (log_env [''tile'']) ''tile'' [''h''] [''g''] start (VRef 0) [VInt 2]
          [(''inplace'', VBool True)]) = Inr (VRef 0) \<and>
   heap (fst (combi_hook (log_env [''tile'']) ''tile'' [''h''] [''g''] start (VRef 0) [VInt 2]
          [(''inplace'', VBool True)])) 0 = [''h'', ''tile'', ''g''] \<and>
   new_calls start (fst (combi_hook (log_env [''tile'']) ''tile'' [''h''] [''g''] start (VRef 0)
          [VInt 2] [(''inplace'', VBool True)])) =
     calls_on (VRef 0) [VInt 2] [(''inplace'', VBool True)] [''h'', ''tile'', ''g''] \<and>
   map_of [] ''inplace'' = None \<and> declares_inplace (log_env [''tile'']) ''tile'' \<and>
   snd (combi_hook (log_env [''tile'']) ''tile'' [''h''] [''g''] start (VRef 0) [VInt 2] []) =
     Inr (VRef 1) \<and>
   new_calls start (fst (combi_hook (log_env [''tile'']) ''tile'' [''h''] [''g''] start (VRef 0)
          [VInt 2] [])) =
     Copied (VRef 0) #
     calls_on (VRef 1) [VInt 2] [(''inplace'', VBool True)] [''h'', ''tile'', ''g'']"
proof -
  let ?E = "log_env [''tile'']"
  let ?kw = "[(''inplace'', VBool True)]"
  let ?run1 = "combi_hook ?E ''tile'' [''h''] [''g''] start (VRef 0) [VInt 2] ?kw"
  let ?run2 = "combi_hook ?E ''tile'' [''h''] [''g''] start (VRef 0) [VInt 2] []"
  have a: "map_of ?kw ''inplace'' = Some (VBool True) \<and> truthy (VBool True)"
    by simp
  have b: "map_of [] ''inplace'' = None \<and> declares_inplace ?E ''tile''"
    by (simp add: declares_inplace_def log_env_def)
  have rg: "\<forall>f \<in> set [''h''] \<union> set [''g''] \<union> {''tile''}. returns_given (call_of ?E f)"
    by (simp add: log_env_returns_given)
  have r1: "snd ?run1 = Inr (VRef 0)" and r2: "snd ?run2 = Inr (VRef 1)"
    and h1: "heap (fst ?run1) 0 = [''h'', ''tile'', ''g'']"
    and c: "snd (copy_of ?E (heap start) (VRef 0)) = Inr (VRef 1)"
    by (simp_all add: eval_combi)
  note t1 = combi_hook_explicit_inplace[where kwargs = ?kw and v = "VBool True" and s = start
      and E = ?E and attr = "''tile''" and pre_funcs = "[''h'']" and post_funcs = "[''g'']"
      and obj = "VRef 0" and args = "[VInt 2]"]
  note t2 = combi_hook_explicit_inplace[where kwargs = "[]" and s = start
      and E = ?E and attr = "''tile''" and pre_funcs = "[''h'']" and post_funcs = "[''g'']"
      and obj = "VRef 0" and args = "[VInt 2]"]
  from t1 a rg have "runs_on ?E ([''h''] @ [''tile''] @ rev [''g'']) (VRef 0) [VInt 2] ?kw
      (new_calls start (fst ?run1)) (snd ?run1)" by blast
  then have n1: "new_calls start (fst ?run1) =
      calls_on (VRef 0) [VInt 2] ?kw [''h'', ''tile'', ''g'']"
    unfolding r1 by (simp add: runs_on_def)
  from t2 b have "case snd (copy_of ?E (heap start) (VRef 0)) of
         Inl e \<Rightarrow> new_calls start (fst ?run2) = [Copied (VRef 0)] \<and> snd ?run2 = Inl e
       | Inr c \<Rightarrow>
           (\<exists>evs. new_calls start (fst ?run2) =
               Copied (VRef 0) # Called (hd ([''h''] @ [''tile''])) (c # [VInt 2])
                 ([] @ [(''inplace'', VBool True)]) # evs \<and>
             (\<forall>ev \<in> set evs. \<exists>f w. ev = Called f (w # [VInt 2]) ([] @ [(''inplace'', VBool True)]))) \<and>
           ((\<forall>f \<in> set [''h''] \<union> set [''g''] \<union> {''tile''}. returns_given (call_of ?E f)) \<longrightarrow>
              (\<exists>evs. new_calls start (fst ?run2) = Copied (VRef 0) # evs \<and>
                runs_on ?E ([''h''] @ [''tile''] @ rev [''g'']) c [VInt 2]
                  ([] @ [(''inplace'', VBool True)]) evs (snd ?run2)))"
    by blast
  then obtain evs where "new_calls start (fst ?run2) = Copied (VRef 0) # evs"
    "runs_on ?E ([''h''] @ [''tile''] @ rev [''g'']) (VRef 1) [VInt 2]
       ([] @ [(''inplace'', VBool True)]) evs (snd ?run2)"
    unfolding c using rg by auto
  then have n2: "new_calls start (fst ?run2) =
      Copied (VRef 0) # calls_on (VRef 1) [VInt 2] ?kw [''h'', ''tile'', ''g'']"
    unfolding r2 by (simp add: runs_on_def)
  from a b r1 r2 h1 n1 n2 show ?thesis by blast
qed




lemma run_hooks_order:
  "\<forall>f \<in> set fs. succeeds_in_place (call_of E f) \<Longrightarrow>
   snd (run_hooks E fs args kw s obj) = Inr obj \<and>
   calls (fst (run_hooks E fs args kw s obj)) = calls s @ map (\<lambda>f. Called f (obj # args) kw) fs"
proof (induction fs arbitrary: s)
  case Nil
  then show ?case by simp
next
  case (Cons f fs)
  obtain s' res where c: "call_logged E f s (obj # args) kw = (s', res)" by fastforce
  have "succeeds_in_place (call_of E f)" using Cons.prems by simp
  then have res: "res = Inr obj"
    using c call_logged_result[of E f s "obj # args" kw] by (simp add: succeeds_in_place_def)
  have s': "calls s' = calls s @ [Called f (obj # args) kw]"
    using c call_logged_calls[of E f s "obj # args" kw] by simp
  have "\<forall>f \<in> set fs. succeeds_in_place (call_of E f)" using Cons.prems by simp
  from Cons.IH[OF this, of s'] show ?case using c res s' by simp
qed

text \<open>
  The order of a run, given the lists of hooks: for hooks and a wrapped attribute that
  return the working value they are given, the calls are the copy (when \<open>inplace\<close> is
  false), the pre-hooks in the order of \<open>pre_funcs\<close>, the wrapped attribute, the
  post-hooks in the reverse order of \<open>post_funcs\<close>, all on the same working value.
\<close>

theorem combi_hook_order:
  assumes flag: "inplace_flag E attr kwargs = Inr (inplace, kw')"
    and ok: "\<forall>f \<in> set pre_funcs \<union> set post_funcs \<union> {attr}. succeeds_in_place (call_of E f)"
    and w: "if inplace then w = obj else snd (copy_of E (heap s) obj) = Inr w"
  shows "snd (combi_hook E attr pre_funcs post_funcs s obj args kwargs) = Inr w \<and>
         new_calls s (fst (combi_hook E attr pre_funcs post_funcs s obj args kwargs)) =
           (if inplace then [] else [Copied obj]) @
           map (\<lambda>f. Called f (w # args) kw') (pre_funcs @ [attr] @ rev post_funcs)"
proof -
  obtain s1 where c1: "(if \<not> inplace then copy_logged E s obj else (s, Inr obj)) = (s1, Inr w)"
    using w copy_logged_result[of E s obj]
    by (cases "copy_logged E s obj") (auto split: if_splits)
  have t1: "calls s1 = calls s @ (if inplace then [] else [Copied obj])"
    using c1 copy_logged_calls[of E s obj] by (auto split: if_splits)
  have p: "\<forall>f \<in> set pre_funcs. succeeds_in_place (call_of E f)" using ok by simp
  obtain s2 where c2: "run_hooks E pre_funcs args kw' s1 w = (s2, Inr w)"
    using run_hooks_order[OF p, of args kw' s1 w] by (cases "run_hooks E pre_funcs args kw' s1 w") simp
  have t2: "calls s2 = calls s1 @ map (\<lambda>f. Called f (w # args) kw') pre_funcs"
    using run_hooks_order[OF p, of args kw' s1 w] c2 by simp
  have "succeeds_in_place (call_of E attr)" using ok by simp
  then obtain s3 where c3: "call_logged E attr s2 (w # args) kw' = (s3, Inr w)"
    using call_logged_result[of E attr s2 "w # args" kw']
    by (cases "call_logged E attr s2 (w # args) kw'") (simp add: succeeds_in_place_def)
  have t3: "calls s3 = calls s2 @ [Called attr (w # args) kw']"
    using c3 call_logged_calls[of E attr s2 "w # args" kw'] by simp
  have q: "\<forall>f \<in> set (rev post_funcs). succeeds_in_place (call_of E f)" using ok by simp
  note r4 = run_hooks_order[OF q, of args kw' s3 w]
  have run: "combi_hook E attr pre_funcs post_funcs s obj args kwargs =
      run_hooks E (rev post_funcs) args kw' s3 w"
    using flag c1 c2 c3 by (simp add: combi_hook_def)
  have "calls (fst (combi_hook E attr pre_funcs post_funcs s obj args kwargs)) =
      calls s @ ((if inplace then [] else [Copied obj]) @
           map (\<lambda>f. Called f (w # args) kw') (pre_funcs @ [attr] @ rev post_funcs))"
    unfolding run using r4 t1 t2 t3 by simp
  then have "new_calls s (fst (combi_hook E attr pre_funcs post_funcs s obj args kwargs)) =
      (if inplace then [] else [Copied obj]) @
           map (\<lambda>f. Called f (w # args) kw') (pre_funcs @ [attr] @ rev post_funcs)"
    by (rule new_calls_append)
  moreover have "snd (combi_hook E attr pre_funcs post_funcs s obj args kwargs) = Inr w"
    unfolding run using r4 by simp
  ultimately show ?thesis by simp
qed

theorem combi_hook_order_witness:
  "inplace_flag (log_env []) ''op'' [(''inplace'', VBool True)] =
     Inr (True, [(''inplace'', VBool True)]) \<and>
   snd (combi_hook (log_env []) ''op'' [''A.pre'', ''B.pre''] [''A.post'', ''B.post'']
      start (VRef 0) [] [(''inplace'', VBool True)]) = Inr (VRef 0) \<and>
   new_calls start (fst (combi_hook (log_env []) ''op'' [''A.pre'', ''B.pre''] [''A.post'', ''B.post'']
      start (VRef 0) [] [(''inplace'', VBool True)])) =
     [Called ''A.pre'' [VRef 0] [(''inplace'', VBool True)],
      Called ''B.pre'' [VRef 0] [(''inplace'', VBool True)],
      Called ''op'' [VRef 0] [(''inplace'', VBool True)],
      Called ''B.post'' [VRef 0] [(''inplace'', VBool True)],
      Called ''A.post'' [VRef 0] [(''inplace'', VBool True)]]"
proof -
  have flag: "inplace_flag (log_env []) ''op'' [(''inplace'', VBool True)] =
     Inr (True, [(''inplace'', VBool True)])"
    by (simp add: inplace_flag_def)
  have ok: "\<forall>f \<in> set [''A.pre'', ''B.pre''] \<union> set [''A.post'', ''B.post''] \<union> {''op''}.
      succeeds_in_place (call_of (log_env []) f)"
    by (simp add: log_env_succeeds)
  have w: "if True then VRef 0 = VRef 0 else snd (copy_of (log_env []) (heap start) (VRef 0)) = Inr (VRef 0)"
    by simp
  from combi_hook_order[OF flag ok w, where args = "[]"] flag show ?thesis by simp
qed

end
